theory Spec2Isabelle
  imports Main "HOL-Library.Sublist"
begin

section \<open>Data model\<close>

text \<open>
  Modelled from the spec: the module \<open>samples_validator.base\<close> (\<open>HttpMethod\<close>,
  \<open>CodeSample\<close>, \<open>ApiTestResult\<close> and the language enumeration) is imported by
  \<open>utils.py\<close> but is not among the sources. The spec describes \<open>HttpMethod\<close> as a closed
  enumeration holding POST, GET, PUT, DELETE and further members; \<open>OTHER\<close> stands for any
  further member, tagged by its name. A member of a plain enumeration is never equal to a
  string, so that a method and a path segment are different dictionary keys.
\<close>

datatype HttpMethod = POST | GET | PUT | DELETE | OTHER string

text \<open>
  Modelled from the spec: a code sample is \<open>{language, path, httpMethod, rendering fields}\<close>.
  \<open>lang_value\<close> is \<open>sample.lang.value\<close>, the string of the language member, \<open>name\<close> the
  resource path, \<open>source\<close> stands for the opaque rendering fields.
\<close>

record CodeSample =
  lang_value :: string
  name :: string
  http_method :: HttpMethod
  source :: string

text \<open>
  Modelled from the spec: a test result is \<open>{sample, body, status fields}\<close>. A JSON body
  is a dictionary, here an association list; \<open>[]\<close> is the empty dictionary \<open>{}\<close>.
\<close>

type_synonym json = "(string \<times> string) list"

record ApiTestResult =
  sample :: CodeSample
  json_body :: "json option"
  passed :: bool

text \<open>
  The nested dictionaries of \<open>utils.py\<close>. A dictionary is an association list in
  insertion order (the order Python iterates in); the flag tells a
  \<open>defaultdict(dict)\<close> (\<open>True\<close>) from a plain \<open>dict\<close> (\<open>False\<close>). Keys are path segments
  (and the reserved string \<open>'methods'\<close>) or HTTP methods; a value is a dictionary or a
  payload object (a code sample or a test result).
\<close>

datatype dkey = SKey string | MKey HttpMethod

datatype 'a pyobj = Dict bool "(dkey \<times> 'a pyobj) list" | Obj 'a

datatype error = KeyError | TypeError | AttributeError

section \<open>Python primitives\<close>

text \<open>\<open>d[k] = v\<close>: an existing key keeps its position, a new key goes last.\<close>

fun dict_set :: "'k \<Rightarrow> 'v \<Rightarrow> ('k \<times> 'v) list \<Rightarrow> ('k \<times> 'v) list" where
  "dict_set k v [] = [(k, v)]"
| "dict_set k v (e # kvs) = (if fst e = k then (k, v) # kvs else e # dict_set k v kvs)"

text \<open>
  Truth value of \<open>d.get(k)\<close>: \<open>None\<close> and an empty dictionary are false; a payload object
  (a dataclass instance) is true.
\<close>

fun truthy :: "'a pyobj option \<Rightarrow> bool" where
  "truthy None = False"
| "truthy (Some (Dict b kvs)) = (kvs \<noteq> [])"
| "truthy (Some (Obj x)) = True"

text \<open>\<open>path.split('/')\<close> and \<open>'/'.join(parts)\<close>.\<close>

fun split_slash :: "string \<Rightarrow> string list" where
  "split_slash [] = [[]]"
| "split_slash (c # cs) =
     (if c = CHR ''/'' then [] # split_slash cs
      else (case split_slash cs of [] \<Rightarrow> [[c]] | p # ps \<Rightarrow> (c # p) # ps))"

fun join_slash :: "string list \<Rightarrow> string" where
  "join_slash [] = []"
| "join_slash [p] = p"
| "join_slash (p # q # ps) = p @ CHR ''/'' # join_slash (q # ps)"

text \<open>
  \<open>node['methods'][http_method] = payload\<close>. Reading \<open>node['methods']\<close> creates an empty
  plain dictionary when \<open>node\<close> is a \<open>defaultdict(dict)\<close> without that key, and raises
  \<open>KeyError\<close> when \<open>node\<close> is a plain dictionary without it; subscripting a payload object
  raises \<open>TypeError\<close>.
\<close>

fun store_method :: "'a pyobj \<Rightarrow> HttpMethod \<Rightarrow> 'a \<Rightarrow> error + 'a pyobj" where
  "store_method (Obj x) m v = Inl TypeError"
| "store_method (Dict b kvs) m v =
     (case map_of kvs (SKey ''methods'') of
        None \<Rightarrow>
          if b then Inr (Dict b (dict_set (SKey ''methods'') (Dict False [(MKey m, Obj v)]) kvs))
          else Inl KeyError
      | Some (Obj x) \<Rightarrow> Inl TypeError
      | Some (Dict mb ms) \<Rightarrow>
          Inr (Dict b (dict_set (SKey ''methods'') (Dict mb (dict_set (MKey m) (Obj v) ms)) kvs)))"

lemma split_slash_not_Nil: "split_slash p \<noteq> []"
  by (induction p) (auto split: list.splits)

lemma join_slash_Cons_char: "join_slash ((c # p) # ps) = c # join_slash (p # ps)"
  by (cases ps) auto

lemma join_split_slash: "join_slash (split_slash p) = p"
proof (induction p)
  case Nil
  show ?case by simp
next
  case (Cons c cs)
  obtain q qs where q: "split_slash cs = q # qs"
    using split_slash_not_Nil [of cs] by (cases "split_slash cs") auto
  show ?case
  proof (cases "c = CHR ''/''")
    case True
    then show ?thesis using Cons q by simp
  next
    case False
    then show ?thesis using Cons q by (simp add: join_slash_Cons_char)
  qed
qed

lemma further_path_shorter:
  assumes "join_slash (tl (split_slash p)) \<noteq> []"
  shows "length (join_slash (tl (split_slash p))) < length p"
proof -
  obtain h t where ht: "split_slash p = h # t"
    using split_slash_not_Nil [of p] by (cases "split_slash p") auto
  with assms obtain q qs where t: "t = q # qs" by (cases t) auto
  have "p = join_slash (h # q # qs)" using join_split_slash [of p] ht t by simp
  then have "length p = length h + 1 + length (join_slash (q # qs))" by simp
  then show ?thesis using ht t by simp
qed

section \<open>CodeSamplesTree\<close>

text \<open>
  \<open>_put_code_sample(current_dict, path, sample)\<close>. The source mutates \<open>current_dict\<close> and
  returns it; the model returns the updated dictionary, or the exception raised.
\<close>

function put_code_sample :: "CodeSample pyobj \<Rightarrow> string \<Rightarrow> CodeSample \<Rightarrow> error + CodeSample pyobj" where
  "put_code_sample current_dict path code_sample =
     (let path_parts = split_slash path;
          current_path = hd path_parts;
          further_path = join_slash (tl path_parts)
      in case current_dict of
           Obj x \<Rightarrow> Inl AttributeError
         | Dict b kvs \<Rightarrow>
             (let kvs1 = (if \<not> truthy (map_of kvs (SKey current_path))
                          then dict_set (SKey current_path) (Dict True []) kvs else kvs)
              in case map_of kvs1 (SKey current_path) of
                   None \<Rightarrow> Inl KeyError
                 | Some child \<Rightarrow>
                     if further_path = [] then
                       (case store_method child (http_method code_sample) code_sample of
                          Inl e \<Rightarrow> Inl e
                        | Inr child' \<Rightarrow> Inr (Dict b (dict_set (SKey current_path) child' kvs1)))
                     else
                       (case put_code_sample child further_path code_sample of
                          Inl e \<Rightarrow> Inl e
                        | Inr child' \<Rightarrow> Inr (Dict b (dict_set (SKey current_path) child' kvs1)))))"
  by pat_completeness auto
termination
  by (relation "measure (\<lambda>(d, p, s). length p)") (auto simp: further_path_shorter)

declare put_code_sample.simps [simp del]

text \<open>\<open>CodeSamplesTree.__init__\<close> and \<open>CodeSamplesTree.put\<close>; the state is \<open>self._tree\<close>.\<close>

definition empty_tree :: "'a pyobj" where
  "empty_tree = Dict False []"

definition CodeSamplesTree_put :: "CodeSample pyobj \<Rightarrow> CodeSample \<Rightarrow> error + CodeSample pyobj" where
  "CodeSamplesTree_put tree code_sample =
     put_code_sample tree (lang_value code_sample @ name code_sample) code_sample"

text \<open>A sequence of \<open>put\<close> calls on one tree; an exception ends the sequence.\<close>

fun put_all :: "CodeSample pyobj \<Rightarrow> CodeSample list \<Rightarrow> error + CodeSample pyobj" where
  "put_all tree [] = Inr tree"
| "put_all tree (s # ss) =
     (case CodeSamplesTree_put tree s of Inl e \<Rightarrow> Inl e | Inr tree' \<Rightarrow> put_all tree' ss)"

text \<open>
  \<open>_sort_samples(endpoints, result_list)\<close>. The source appends to \<open>result_list\<close>; the model
  returns the extended list. \<open>append_methods\<close> is the loop over
  \<open>(HttpMethod.post, HttpMethod.get, HttpMethod.put)\<close>, \<open>sort_each\<close> the loop over
  \<open>further_paths\<close>, which reads \<open>endpoints[value]\<close> for every name.
\<close>

fun append_methods :: "HttpMethod list \<Rightarrow> (dkey \<times> 'a pyobj) list \<Rightarrow> 'a pyobj list \<Rightarrow> 'a pyobj list" where
  "append_methods [] methods result_list = result_list"
| "append_methods (method # rest) methods result_list =
     append_methods rest methods
       (case map_of methods (MKey method) of
          None \<Rightarrow> result_list
        | Some v \<Rightarrow> result_list @ [v])"

lemma size_map_of_less:
  "map_of kvs k = Some v \<Longrightarrow> size v < size_list (size_prod (\<lambda>_. 0) size) kvs"
  by (induction kvs) (auto split: if_splits)

function sort_samples :: "'a pyobj \<Rightarrow> 'a pyobj list \<Rightarrow> error + 'a pyobj list"
  and sort_each :: "(dkey \<times> 'a pyobj) list \<Rightarrow> dkey list \<Rightarrow> 'a pyobj list \<Rightarrow> error + 'a pyobj list" where
  "sort_samples (Obj x) result_list = Inl AttributeError"
| "sort_samples (Dict b endpoints) result_list =
     (case (case map_of endpoints (SKey ''methods'') of None \<Rightarrow> Dict False [] | Some ms \<Rightarrow> ms) of
        Obj x \<Rightarrow> Inl TypeError
      | Dict mb methods \<Rightarrow>
          (let result_list1 = append_methods [POST, GET, PUT] methods result_list;
               further_paths = filter (\<lambda>name. name \<noteq> SKey ''methods'') (map fst endpoints);
               deepest_level = (further_paths = [])
           in case (if \<not> deepest_level then sort_each endpoints further_paths result_list1
                    else Inr result_list1) of
                Inl e \<Rightarrow> Inl e
              | Inr result_list2 \<Rightarrow> Inr (append_methods [DELETE] methods result_list2)))"
| "sort_each endpoints [] result_list = Inr result_list"
| "sort_each endpoints (value # rest) result_list =
     (case map_of endpoints value of
        None \<Rightarrow> Inl KeyError
      | Some child \<Rightarrow>
          (case sort_samples child result_list of
             Inl e \<Rightarrow> Inl e
           | Inr result_list' \<Rightarrow> sort_each endpoints rest result_list'))"
  by pat_completeness auto
termination
  by (relation "measures
        [\<lambda>x. case x of Inl (t, rl) \<Rightarrow> size t
                      | Inr (kvs, ns, rl) \<Rightarrow> size_list (size_prod (\<lambda>_. 0) size) kvs,
         \<lambda>x. case x of Inl (t, rl) \<Rightarrow> 0 | Inr (kvs, ns, rl) \<Rightarrow> length ns]")
     (auto simp: size_map_of_less)

text \<open>\<open>CodeSamplesTree.list_sorted_samples\<close>.\<close>

definition list_sorted_samples :: "CodeSample pyobj \<Rightarrow> error + CodeSample pyobj list" where
  "list_sorted_samples tree = sort_samples tree []"

section \<open>TestExecutionResultMap\<close>

text \<open>\<open>_put_test_result(current_dict, test_result, path)\<close>.\<close>

function put_test_result :: "ApiTestResult pyobj \<Rightarrow> ApiTestResult \<Rightarrow> string \<Rightarrow> error + ApiTestResult pyobj" where
  "put_test_result current_dict test_result path =
     (let path_parts = split_slash path;
          current_path = hd path_parts;
          further_path = join_slash (tl path_parts)
      in case current_dict of
           Obj x \<Rightarrow> Inl AttributeError
         | Dict b kvs \<Rightarrow>
             (let kvs1 = (if \<not> truthy (map_of kvs (SKey current_path))
                          then dict_set (SKey current_path) (Dict True []) kvs else kvs)
              in case map_of kvs1 (SKey current_path) of
                   None \<Rightarrow> Inl KeyError
                 | Some child \<Rightarrow>
                     if further_path = [] then
                       (let http_method = http_method (sample test_result)
                        in case store_method child http_method test_result of
                             Inl e \<Rightarrow> Inl e
                           | Inr child' \<Rightarrow> Inr (Dict b (dict_set (SKey current_path) child' kvs1)))
                     else
                       (case put_test_result child test_result further_path of
                          Inl e \<Rightarrow> Inl e
                        | Inr child' \<Rightarrow> Inr (Dict b (dict_set (SKey current_path) child' kvs1)))))"
  by pat_completeness auto
termination
  by (relation "measure (\<lambda>(d, r, p). length p)") (auto simp: further_path_shorter)

declare put_test_result.simps [simp del]

text \<open>
  \<open>_get_parent_test_result(current_dict, sample, path, current_parent)\<close>. \<open>current_parent\<close>
  is \<open>None\<close> or a value read from a dictionary.
\<close>

function get_parent_test_result ::
  "ApiTestResult pyobj \<Rightarrow> CodeSample \<Rightarrow> string \<Rightarrow> ApiTestResult pyobj option
   \<Rightarrow> error + ApiTestResult pyobj option" where
  "get_parent_test_result current_dict code_sample path current_parent =
     (let path_parts = split_slash path;
          current_path = hd path_parts;
          further_path = join_slash (tl path_parts)
      in case current_dict of
           Obj x \<Rightarrow> Inl AttributeError
         | Dict b kvs \<Rightarrow>
             (case (case map_of kvs (SKey ''methods'') of None \<Rightarrow> Dict False [] | Some ms \<Rightarrow> ms) of
                Obj x \<Rightarrow> Inl AttributeError
              | Dict mb current_methods \<Rightarrow>
                  (let current_parent1 =
                         (case map_of current_methods (MKey POST) of
                            None \<Rightarrow> current_parent
                          | Some v \<Rightarrow> Some v);
                       next_dict = map_of kvs (SKey current_path)
                   in if \<not> truthy next_dict then Inr current_parent1
                      else if further_path = [] then Inr current_parent1
                      else get_parent_test_result (the next_dict) code_sample further_path
                             current_parent1)))"
  by pat_completeness auto
termination
  by (relation "measure (\<lambda>(d, s, p, c). length p)") (auto simp: further_path_shorter)

declare get_parent_test_result.simps [simp del]

text \<open>
  \<open>TestExecutionResultMap.put\<close>, \<open>get_parent_result\<close> and \<open>get_parent_body\<close>; the state is
  \<open>self._map\<close>. \<open>parent_result.json_body or {}\<close> is the empty dictionary when the body is
  \<open>None\<close> or empty; reading \<open>json_body\<close> of a dictionary raises \<open>AttributeError\<close>.
\<close>

definition TestExecutionResultMap_put :: "ApiTestResult pyobj \<Rightarrow> ApiTestResult \<Rightarrow> error + ApiTestResult pyobj" where
  "TestExecutionResultMap_put m test_result =
     put_test_result m test_result (name (sample test_result))"

definition get_parent_result :: "ApiTestResult pyobj \<Rightarrow> CodeSample \<Rightarrow> error + ApiTestResult pyobj option" where
  "get_parent_result m code_sample =
     get_parent_test_result m code_sample (name code_sample) None"

definition get_parent_body :: "ApiTestResult pyobj \<Rightarrow> CodeSample \<Rightarrow> error + json" where
  "get_parent_body m code_sample =
     (case get_parent_result m code_sample of
        Inl e \<Rightarrow> Inl e
      | Inr None \<Rightarrow> Inr []
      | Inr (Some (Dict b kvs)) \<Rightarrow> Inl AttributeError
      | Inr (Some (Obj parent_result)) \<Rightarrow>
          (case json_body parent_result of
             None \<Rightarrow> Inr []
           | Some body \<Rightarrow> Inr (if body = [] then [] else body)))"

fun record_all :: "ApiTestResult pyobj \<Rightarrow> ApiTestResult list \<Rightarrow> error + ApiTestResult pyobj" where
  "record_all m [] = Inr m"
| "record_all m (r # rs) =
     (case TestExecutionResultMap_put m r of Inl e \<Rightarrow> Inl e | Inr m' \<Rightarrow> record_all m' rs)"

text \<open>Inserting a list of samples into a fresh tree and listing them.\<close>

definition sorted_after :: "CodeSample list \<Rightarrow> error + CodeSample pyobj list" where
  "sorted_after samples =
     (case put_all empty_tree samples of Inl e \<Rightarrow> Inl e | Inr tree \<Rightarrow> list_sorted_samples tree)"

section \<open>The descent written on key sequences\<close>

text \<open>
  The three recursive functions split the path in the same way: the first part is the key
  at this level, the rest joined again is the path of the next level, and the descent ends
  when the rest is the empty string. \<open>path_keys\<close> is the sequence of keys this visits;
  \<open>put_keys\<close> and \<open>get_keys\<close> are the insertion and the lookup on that sequence.
\<close>

function path_keys :: "string \<Rightarrow> string list" where
  "path_keys path =
     (let path_parts = split_slash path;
          current_path = hd path_parts;
          further_path = join_slash (tl path_parts)
      in if further_path = [] then [current_path] else current_path # path_keys further_path)"
  by pat_completeness auto
termination
  by (relation "measure length") (auto simp: further_path_shorter)

declare path_keys.simps [simp del]

fun put_keys :: "'a pyobj \<Rightarrow> string list \<Rightarrow> HttpMethod \<Rightarrow> 'a \<Rightarrow> error + 'a pyobj" where
  "put_keys d [] m v = Inl KeyError"
| "put_keys (Obj x) (k # ks) m v = Inl AttributeError"
| "put_keys (Dict b kvs) (k # ks) m v =
     (let kvs1 = (if \<not> truthy (map_of kvs (SKey k)) then dict_set (SKey k) (Dict True []) kvs else kvs)
      in case map_of kvs1 (SKey k) of
           None \<Rightarrow> Inl KeyError
         | Some child \<Rightarrow>
             (case (if ks = [] then store_method child m v else put_keys child ks m v) of
                Inl e \<Rightarrow> Inl e
              | Inr child' \<Rightarrow> Inr (Dict b (dict_set (SKey k) child' kvs1))))"

fun get_keys :: "'a pyobj \<Rightarrow> string list \<Rightarrow> 'a pyobj option \<Rightarrow> error + 'a pyobj option" where
  "get_keys d [] cur = Inl KeyError"
| "get_keys (Obj x) (k # ks) cur = Inl AttributeError"
| "get_keys (Dict b kvs) (k # ks) cur =
     (case (case map_of kvs (SKey ''methods'') of None \<Rightarrow> Dict False [] | Some ms \<Rightarrow> ms) of
        Obj x \<Rightarrow> Inl AttributeError
      | Dict mb current_methods \<Rightarrow>
          (let cur1 = (case map_of current_methods (MKey POST) of None \<Rightarrow> cur | Some v \<Rightarrow> Some v)
           in if \<not> truthy (map_of kvs (SKey k)) then Inr cur1
              else if ks = [] then Inr cur1
              else get_keys (the (map_of kvs (SKey k))) ks cur1))"

lemma path_keys_not_Nil: "path_keys p \<noteq> []"
  by (subst path_keys.simps) (simp add: Let_def)

lemma path_keys_last: "join_slash (tl (split_slash p)) = [] \<Longrightarrow> path_keys p = [hd (split_slash p)]"
  by (subst path_keys.simps) (simp add: Let_def)

lemma path_keys_step:
  "join_slash (tl (split_slash p)) \<noteq> [] \<Longrightarrow>
   path_keys p = hd (split_slash p) # path_keys (join_slash (tl (split_slash p)))"
  by (subst path_keys.simps) (simp add: Let_def)

lemma put_code_sample_keys:
  "put_code_sample d p s = put_keys d (path_keys p) (http_method s) s"
proof (induction d p s rule: put_code_sample.induct)
  case (1 d p s)
  show ?case
  proof (cases "join_slash (tl (split_slash p)) = []")
    case True
    then show ?thesis
      by (subst put_code_sample.simps)
         (simp add: Let_def path_keys_last split: pyobj.splits option.splits sum.splits)
  next
    case False
    then show ?thesis using 1 path_keys_not_Nil
      by (subst put_code_sample.simps)
         (simp add: Let_def path_keys_step split: pyobj.splits option.splits sum.splits)
  qed
qed

lemma put_test_result_keys:
  "put_test_result d r p = put_keys d (path_keys p) (http_method (sample r)) r"
proof (induction d r p rule: put_test_result.induct)
  case (1 d r p)
  show ?case
  proof (cases "join_slash (tl (split_slash p)) = []")
    case True
    then show ?thesis
      by (subst put_test_result.simps)
         (simp add: Let_def path_keys_last split: pyobj.splits option.splits sum.splits)
  next
    case False
    then show ?thesis using 1 path_keys_not_Nil
      by (subst put_test_result.simps)
         (simp add: Let_def path_keys_step split: pyobj.splits option.splits sum.splits)
  qed
qed

lemma get_parent_test_result_keys:
  "get_parent_test_result d s p cur = get_keys d (path_keys p) cur"
proof (induction d s p cur rule: get_parent_test_result.induct)
  case (1 d s p cur)
  show ?case
  proof (cases "join_slash (tl (split_slash p)) = []")
    case True
    then show ?thesis
      by (subst get_parent_test_result.simps)
         (simp add: Let_def path_keys_last split: pyobj.splits option.splits sum.splits)
  next
    case False
    then show ?thesis using 1 path_keys_not_Nil
      by (subst get_parent_test_result.simps)
         (simp add: Let_def path_keys_step split: pyobj.splits option.splits sum.splits)
  qed
qed

section \<open>Entries of the nested dictionaries\<close>

text \<open>
  \<open>lookup d p\<close> follows the keys \<open>p\<close> down the dictionary \<open>d\<close>. \<open>slot ks m\<close> is the place
  where \<open>put\<close> stores the payload of a path with the keys \<open>ks\<close> and the method \<open>m\<close>:
  below the nodes of \<open>ks\<close>, under the key \<open>methods\<close>, at the method.
\<close>

fun lookup :: "'a pyobj \<Rightarrow> dkey list \<Rightarrow> 'a pyobj option" where
  "lookup d [] = Some d"
| "lookup (Obj x) (k # ks) = None"
| "lookup (Dict b kvs) (k # ks) = (case map_of kvs k of None \<Rightarrow> None | Some child \<Rightarrow> lookup child ks)"

definition slot :: "string list \<Rightarrow> HttpMethod \<Rightarrow> dkey list" where
  "slot ks m = map SKey ks @ [SKey ''methods'', MKey m]"

lemma map_of_dict_set: "map_of (dict_set k v kvs) k' = (if k' = k then Some v else map_of kvs k')"
  by (induction kvs) auto

lemma dict_set_twice: "dict_set k v2 (dict_set k v1 kvs) = dict_set k v2 kvs"
  by (induction kvs) auto

lemma fst_set_dict_set: "fst ` set (dict_set k v kvs) = insert k (fst ` set kvs)"
  by (induction kvs) auto

lemma distinct_dict_set: "distinct (map fst kvs) \<Longrightarrow> distinct (map fst (dict_set k v kvs))"
  by (induction kvs) (auto simp: fst_set_dict_set)

lemma set_dict_set_subset: "set (dict_set k v kvs) \<subseteq> insert (k, v) (set kvs)"
  by (induction kvs) auto

lemma lookup_Obj_iff: "lookup (Obj y) p = Some z \<longleftrightarrow> p = [] \<and> z = Obj y"
  by (cases p) auto

lemma lookup_empty_Dict: "lookup (Dict b []) p = Some (Obj x) \<longleftrightarrow> False"
  by (cases p) auto

lemma lookup_not_truthy: "\<not> truthy (Some a) \<Longrightarrow> lookup a q \<noteq> Some (Obj x)"
  by (cases a; cases q) auto

lemma lookup_store_method:
  assumes "store_method d m v = Inr d'"
  shows "lookup d' p = Some (Obj x) \<longleftrightarrow>
         (if p = [SKey ''methods'', MKey m] then x = v
          else \<not> prefix [SKey ''methods'', MKey m] p \<and> lookup d p = Some (Obj x))"
proof (cases d)
  case (Obj y)
  with assms show ?thesis by simp
next
  case (Dict b kvs)
  show ?thesis
  proof (cases p)
    case Nil
    with assms Dict show ?thesis by (auto split: option.splits pyobj.splits if_splits)
  next
    case (Cons q qs)
    show ?thesis
    proof (cases "q = SKey ''methods''")
      case False
      with assms Dict Cons show ?thesis
        by (auto simp: map_of_dict_set split: option.splits pyobj.splits if_splits)
    next
      case True
      show ?thesis
      proof (cases qs)
        case Nil
        with assms Dict Cons True show ?thesis
          by (auto simp: map_of_dict_set split: option.splits pyobj.splits if_splits)
      next
        case (Cons r rs)
        with assms Dict \<open>p = q # qs\<close> True show ?thesis
          by (auto simp: map_of_dict_set lookup_Obj_iff split: option.splits pyobj.splits if_splits)
      qed
    qed
  qed
qed

lemma lookup_put_keys:
  assumes "put_keys d ks m v = Inr d'"
  shows "lookup d' p = Some (Obj x) \<longleftrightarrow>
         (if p = slot ks m then x = v
          else \<not> prefix (slot ks m) p \<and> lookup d p = Some (Obj x))"
  using assms
proof (induction ks arbitrary: d d' p)
  case Nil
  then show ?case by simp
next
  case (Cons k ks)
  from Cons.prems obtain b kvs where d: "d = Dict b kvs" by (cases d) auto
  let ?kvs1 = "if \<not> truthy (map_of kvs (SKey k)) then dict_set (SKey k) (Dict True []) kvs else kvs"
  from Cons.prems d obtain child where child: "map_of ?kvs1 (SKey k) = Some child"
    by (auto simp: Let_def split: option.splits)
  from Cons.prems d child obtain child' where
    step: "(if ks = [] then store_method child m v else put_keys child ks m v) = Inr child'"
    and d': "d' = Dict b (dict_set (SKey k) child' ?kvs1)"
    by (auto simp: Let_def split: option.splits sum.splits if_splits)
  have old: "lookup child q = Some (Obj x) \<longleftrightarrow> lookup d (SKey k # q) = Some (Obj x)" for q
    using child d by (cases "map_of kvs (SKey k)"; cases q)
      (auto simp: map_of_dict_set lookup_empty_Dict lookup_not_truthy split: if_splits)
  have inner: "lookup child' q = Some (Obj x) \<longleftrightarrow>
      (if q = slot ks m then x = v else \<not> prefix (slot ks m) q \<and> lookup child q = Some (Obj x))" for q
  proof (cases "ks = []")
    case True
    then show ?thesis using step lookup_store_method [of child m v child' q x]
      by (simp add: slot_def)
  next
    case False
    then show ?thesis using step Cons.IH [of child child' q] by simp
  qed
  show ?case
  proof (cases p)
    case Nil
    then show ?thesis using d d' by (simp add: slot_def)
  next
    case (Cons q qs)
    show ?thesis
    proof (cases "q = SKey k")
      case True
      then show ?thesis using Cons d' inner [of qs] old [of qs]
        by (simp add: map_of_dict_set slot_def)
    next
      case False
      then show ?thesis using Cons d d'
        by (auto simp add: map_of_dict_set slot_def)
    qed
  qed
qed


section \<open>Invariants of the reachable states\<close>

text \<open>
  In a well-formed dictionary the values under string keys are dictionaries and the values
  under method keys are payload objects. \<open>at_home\<close> says that every payload object lies at
  the slot of its own path and method. Both hold of the empty dictionary and are kept by
  every \<open>put\<close> that returns.
\<close>

fun is_dict :: "'a pyobj \<Rightarrow> bool" where
  "is_dict (Dict b kvs) = True"
| "is_dict (Obj x) = False"

fun kind_ok :: "dkey \<Rightarrow> 'a pyobj \<Rightarrow> bool" where
  "kind_ok (SKey n) c = is_dict c"
| "kind_ok (MKey m) c = (\<not> is_dict c)"

fun well_formed :: "'a pyobj \<Rightarrow> bool" where
  "well_formed (Obj x) = True"
| "well_formed (Dict b kvs) =
     (distinct (map fst kvs) \<and>
      (\<forall>e \<in> set kvs. well_formed (snd e) \<and> kind_ok (fst e) (snd e)))"

lemma well_formed_dict_set:
  assumes "well_formed (Dict b kvs)" "well_formed c" "kind_ok k c"
  shows "well_formed (Dict b' (dict_set k c kvs))"
proof -
  have "well_formed (snd e) \<and> kind_ok (fst e) (snd e)" if "e \<in> set (dict_set k c kvs)" for e
  proof -
    from that have "e = (k, c) \<or> e \<in> set kvs"
      using set_dict_set_subset [of k c kvs] by auto
    then show ?thesis using assms by auto
  qed
  moreover have "distinct (map fst (dict_set k c kvs))"
    using assms(1) by (simp add: distinct_dict_set)
  ultimately show ?thesis by simp
qed

lemma well_formed_map_of:
  assumes "well_formed (Dict b kvs)" "map_of kvs k = Some c"
  shows "well_formed c \<and> kind_ok k c"
proof -
  have "(k, c) \<in> set kvs" using assms(2) by (rule map_of_SomeD)
  then show ?thesis using assms(1) by fastforce
qed

lemma well_formed_store_method:
  assumes "well_formed d" "store_method d m v = Inr d'"
  shows "well_formed d' \<and> is_dict d'"
proof (cases d)
  case (Obj x)
  with assms show ?thesis by simp
next
  case (Dict b kvs)
  show ?thesis
  proof (cases "map_of kvs (SKey ''methods'')")
    case None
    with assms Dict have d': "d' = Dict b (dict_set (SKey ''methods'') (Dict False [(MKey m, Obj v)]) kvs)"
      by (auto split: if_splits)
    have "well_formed (Dict False [(MKey m, Obj v)])" by simp
    then have "well_formed d'" unfolding d' using assms(1) Dict
      by (intro well_formed_dict_set [of b kvs]) simp_all
    then show ?thesis using d' by simp
  next
    case (Some ms)
    with assms Dict obtain mb mkvs where ms: "ms = Dict mb mkvs" by (cases ms) auto
    with assms Dict Some have d': "d' = Dict b (dict_set (SKey ''methods'')
        (Dict mb (dict_set (MKey m) (Obj v) mkvs)) kvs)" by auto
    have "well_formed (Dict mb mkvs)"
      using well_formed_map_of [of b kvs "SKey ''methods''" ms] assms(1) Dict Some ms by simp
    then have "well_formed (Dict mb (dict_set (MKey m) (Obj v) mkvs))"
      by (rule well_formed_dict_set) simp_all
    then have "well_formed d'" unfolding d' using assms(1) Dict
      by (intro well_formed_dict_set [of b kvs]) simp_all
    then show ?thesis using d' by simp
  qed
qed

lemma well_formed_put_keys:
  assumes "well_formed d" "put_keys d ks m v = Inr d'"
  shows "well_formed d' \<and> is_dict d'"
  using assms
proof (induction ks arbitrary: d d')
  case Nil
  then show ?case by simp
next
  case (Cons k ks)
  from Cons.prems obtain b kvs where d: "d = Dict b kvs" by (cases d) auto
  let ?kvs1 = "if \<not> truthy (map_of kvs (SKey k)) then dict_set (SKey k) (Dict True []) kvs else kvs"
  from Cons.prems d obtain child where child: "map_of ?kvs1 (SKey k) = Some child"
    by (auto simp: Let_def split: option.splits)
  from Cons.prems d child obtain child' where
    step: "(if ks = [] then store_method child m v else put_keys child ks m v) = Inr child'"
    and d': "d' = Dict b (dict_set (SKey k) child' ?kvs1)"
    by (auto simp: Let_def split: option.splits sum.splits if_splits)
  have "well_formed (Dict b (dict_set (SKey k) (Dict True []) kvs))"
    using Cons.prems(1) d by (intro well_formed_dict_set [of b kvs]) simp_all
  then have wf1: "well_formed (Dict b ?kvs1)"
    using Cons.prems(1) d by (cases "truthy (map_of kvs (SKey k))") simp_all
  then have "well_formed child"
    using well_formed_map_of [OF _ child] by blast
  then have "well_formed child' \<and> is_dict child'"
    using step Cons.IH [of child child'] well_formed_store_method [of child m v child']
    by (cases "ks = []") simp_all
  then have "well_formed d'" unfolding d' using wf1
    by (intro well_formed_dict_set [of b ?kvs1]) simp_all
  then show ?case using d' by simp
qed


definition at_home :: "('a \<Rightarrow> dkey list) \<Rightarrow> 'a pyobj \<Rightarrow> bool" where
  "at_home home t = (\<forall>p x. lookup t p = Some (Obj x) \<longrightarrow> p = home x)"

lemma at_home_put_keys:
  assumes "at_home home d" "put_keys d ks m v = Inr d'" "home v = slot ks m"
  shows "at_home home d'"
  unfolding at_home_def
proof (intro allI impI)
  fix p x
  assume "lookup d' p = Some (Obj x)"
  then have "if p = slot ks m then x = v else lookup d p = Some (Obj x)"
    using lookup_put_keys [OF assms(2), of p x] by (simp split: if_splits)
  then show "p = home x" using assms(1,3) by (auto simp: at_home_def split: if_splits)
qed

lemma at_home_empty: "at_home home empty_tree"
  by (auto simp: at_home_def empty_tree_def lookup_empty_Dict)

text \<open>
  The slot of a code sample in the tree (its key is the language value followed by the
  path) and the slot of a test result in the map (its key is the path of its sample).
\<close>

definition sample_slot :: "CodeSample \<Rightarrow> dkey list" where
  "sample_slot s = slot (path_keys (lang_value s @ name s)) (http_method s)"

definition result_slot :: "ApiTestResult \<Rightarrow> dkey list" where
  "result_slot r = slot (path_keys (name (sample r))) (http_method (sample r))"

definition tree_inv :: "('a \<Rightarrow> dkey list) \<Rightarrow> 'a pyobj \<Rightarrow> bool" where
  "tree_inv home t = (well_formed t \<and> is_dict t \<and> at_home home t)"

lemma tree_inv_empty: "tree_inv home empty_tree"
  by (simp add: tree_inv_def at_home_empty) (simp add: empty_tree_def)

lemma tree_inv_put_keys:
  "tree_inv home d \<Longrightarrow> put_keys d ks m v = Inr d' \<Longrightarrow> home v = slot ks m \<Longrightarrow> tree_inv home d'"
  using well_formed_put_keys [of d ks m v d'] at_home_put_keys [of home d ks m v d']
  by (simp add: tree_inv_def)

lemma CodeSamplesTree_put_keys:
  "CodeSamplesTree_put t s = put_keys t (path_keys (lang_value s @ name s)) (http_method s) s"
  by (simp add: CodeSamplesTree_put_def put_code_sample_keys)

lemma TestExecutionResultMap_put_keys:
  "TestExecutionResultMap_put t r = put_keys t (path_keys (name (sample r))) (http_method (sample r)) r"
  by (simp add: TestExecutionResultMap_put_def put_test_result_keys)

lemma tree_inv_CodeSamplesTree_put:
  "tree_inv sample_slot t \<Longrightarrow> CodeSamplesTree_put t s = Inr t' \<Longrightarrow> tree_inv sample_slot t'"
  by (rule tree_inv_put_keys [where v = s]) (simp_all add: CodeSamplesTree_put_keys sample_slot_def)

lemma tree_inv_TestExecutionResultMap_put:
  "tree_inv result_slot t \<Longrightarrow> TestExecutionResultMap_put t r = Inr t' \<Longrightarrow> tree_inv result_slot t'"
  by (rule tree_inv_put_keys [where v = r]) (simp_all add: TestExecutionResultMap_put_keys result_slot_def)

lemma tree_inv_put_all:
  "tree_inv sample_slot t \<Longrightarrow> put_all t ss = Inr t' \<Longrightarrow> tree_inv sample_slot t'"
proof (induction ss arbitrary: t)
  case Nil
  then show ?case by simp
next
  case (Cons s ss)
  then show ?case
    by (auto split: sum.splits dest: tree_inv_CodeSamplesTree_put)
qed

lemma tree_inv_record_all:
  "tree_inv result_slot t \<Longrightarrow> record_all t rs = Inr t' \<Longrightarrow> tree_inv result_slot t'"
proof (induction rs arbitrary: t)
  case Nil
  then show ?case by simp
next
  case (Cons r rs)
  then show ?case
    by (auto split: sum.splits dest: tree_inv_TestExecutionResultMap_put)
qed

section \<open>The order of the traversal\<close>

text \<open>
  The order in which \<open>sort_samples\<close> walks the nested dictionaries, written as a
  function of the dictionary alone. It describes the code and serves the proofs; it is
  not the traversal of the specification. \<open>own_sample kvs m\<close> is the entry of the method
  \<open>m\<close> in the dictionary that \<open>kvs\<close> holds under the key \<open>methods\<close>; the entries under
  all other keys are walked in insertion order. Like the code, \<open>dfs_order\<close> never
  descends into the entry under the key \<open>methods\<close>, also when that entry is the node of
  a path segment called \<open>methods\<close>.
\<close>

definition own_sample :: "(dkey \<times> 'a pyobj) list \<Rightarrow> HttpMethod \<Rightarrow> 'a pyobj list" where
  "own_sample kvs m =
     (case map_of kvs (SKey ''methods'') of
        Some (Dict mb ms) \<Rightarrow> (case map_of ms (MKey m) of Some v \<Rightarrow> [v] | None \<Rightarrow> [])
      | _ \<Rightarrow> [])"

fun dfs_order :: "'a pyobj \<Rightarrow> 'a pyobj list" where
  "dfs_order (Obj x) = []"
| "dfs_order (Dict b kvs) =
     own_sample kvs POST @ own_sample kvs GET @ own_sample kvs PUT
     @ concat (map (\<lambda>e. if fst e = SKey ''methods'' then [] else dfs_order (snd e)) kvs)
     @ own_sample kvs DELETE"

text \<open>The dictionaries on which \<open>sort_samples\<close> raises no exception.\<close>

fun sortable :: "'a pyobj \<Rightarrow> bool" where
  "sortable (Obj x) = False"
| "sortable (Dict b kvs) =
     (distinct (map fst kvs) \<and>
      (\<forall>e \<in> set kvs. case fst e of
           MKey m \<Rightarrow> False
         | SKey n \<Rightarrow> if n = ''methods'' then is_dict (snd e) else sortable (snd e)))"

lemma append_methods_one:
  "append_methods [m] ms rl = rl @ (case map_of ms (MKey m) of Some v \<Rightarrow> [v] | None \<Rightarrow> [])"
  by (simp split: option.splits)

lemma append_methods_three:
  "append_methods [m1, m2, m3] ms rl =
     rl @ (case map_of ms (MKey m1) of Some v \<Rightarrow> [v] | None \<Rightarrow> [])
        @ (case map_of ms (MKey m2) of Some v \<Rightarrow> [v] | None \<Rightarrow> [])
        @ (case map_of ms (MKey m3) of Some v \<Rightarrow> [v] | None \<Rightarrow> [])"
  by (simp split: option.splits)

lemma children_by_name:
  assumes "\<forall>e \<in> set es. map_of kvs (fst e) = Some (snd e)"
  shows "concat (map (\<lambda>n. f (the (map_of kvs n))) (filter (\<lambda>n. n \<noteq> k) (map fst es)))
       = concat (map (\<lambda>e. if fst e = k then [] else f (snd e)) es)"
  using assms by (induction es) auto

lemma distinct_map_of_entries:
  "distinct (map fst kvs) \<Longrightarrow> \<forall>e \<in> set kvs. map_of kvs (fst e) = Some (snd e)"
  by (auto simp: map_of_eq_Some_iff)

lemma sortable_methods:
  assumes "sortable (Dict b kvs)"
  obtains mb ms where
    "(case map_of kvs (SKey ''methods'') of None \<Rightarrow> Dict False [] | Some d \<Rightarrow> d) = Dict mb ms"
    "\<And>m. own_sample kvs m = (case map_of ms (MKey m) of Some v \<Rightarrow> [v] | None \<Rightarrow> [])"
proof (cases "map_of kvs (SKey ''methods'')")
  case None
  then show ?thesis using that [of False "[]"] by (simp add: own_sample_def)
next
  case (Some d)
  then have "(SKey ''methods'', d) \<in> set kvs" by (rule map_of_SomeD)
  then have "is_dict d" using assms by fastforce
  then obtain mb ms where "d = Dict mb ms" by (cases d) auto
  then show ?thesis using Some that [of mb ms] by (simp add: own_sample_def)
qed

lemma sortable_child:
  assumes "sortable (Dict b kvs)" "n \<in> set (map fst kvs)" "n \<noteq> SKey ''methods''"
  shows "\<exists>c. map_of kvs n = Some c \<and> sortable c"
proof -
  from assms(2) obtain c where e: "(n, c) \<in> set kvs" by auto
  then have "map_of kvs n = Some c" using assms(1) by simp
  moreover have "sortable c"
    using assms(1,3) e by (cases n) (fastforce split: if_splits)+
  ultimately show ?thesis by blast
qed

lemma sort_samples_sort_each_dfs:
  "(sortable t \<longrightarrow> sort_samples t rl = Inr (rl @ dfs_order t))"
  "((\<forall>n \<in> set ns. \<exists>c. map_of kvs n = Some c \<and> sortable c) \<longrightarrow>
      sort_each kvs ns rl = Inr (rl @ concat (map (\<lambda>n. dfs_order (the (map_of kvs n))) ns)))"
proof (induction t rl and kvs ns rl rule: sort_samples_sort_each.induct)
  case (1 x result_list)
  show ?case by simp
next
  case (2 b endpoints result_list)
  show ?case
  proof
    assume s: "sortable (Dict b endpoints)"
    from sortable_methods [OF s] obtain mb ms where
      ms: "(case map_of endpoints (SKey ''methods'') of None \<Rightarrow> Dict False [] | Some d \<Rightarrow> d) = Dict mb ms"
      and own: "\<And>m. own_sample endpoints m = (case map_of ms (MKey m) of Some v \<Rightarrow> [v] | None \<Rightarrow> [])"
      by blast
    let ?rl1 = "append_methods [POST, GET, PUT] ms result_list"
    let ?fp = "filter (\<lambda>name. name \<noteq> SKey ''methods'') (map fst endpoints)"
    have rl1: "?rl1 = result_list @ own_sample endpoints POST @ own_sample endpoints GET
                 @ own_sample endpoints PUT"
      by (simp only: append_methods_three own)
    have kids: "concat (map (\<lambda>n. dfs_order (the (map_of endpoints n))) ?fp)
        = concat (map (\<lambda>e. if fst e = SKey ''methods'' then [] else dfs_order (snd e)) endpoints)"
      using children_by_name [OF distinct_map_of_entries, of endpoints dfs_order "SKey ''methods''"] s
      by simp
    have each: "sort_each endpoints ?fp ?rl1
        = Inr (?rl1 @ concat (map (\<lambda>n. dfs_order (the (map_of endpoints n))) ?fp))"
    proof (cases "?fp = []")
      case True
      then show ?thesis by simp
    next
      case False
      have "\<forall>n \<in> set ?fp. \<exists>c. map_of endpoints n = Some c \<and> sortable c"
        using sortable_child [OF s] by simp
      then show ?thesis using 2 [OF ms refl refl refl] False by simp
    qed
    have "sort_samples (Dict b endpoints) result_list
        = Inr (append_methods [DELETE] ms
                 (?rl1 @ concat (map (\<lambda>n. dfs_order (the (map_of endpoints n))) ?fp)))"
      using ms each by (cases "?fp = []") (simp_all add: Let_def)
    then show "sort_samples (Dict b endpoints) result_list
        = Inr (result_list @ dfs_order (Dict b endpoints))"
      by (simp only: append_methods_one rl1 kids own [symmetric] dfs_order.simps append_assoc)
  qed
next
  case (3 endpoints result_list)
  show ?case by simp
next
  case (4 endpoints "value" rest result_list)
  show ?case
  proof
    assume a: "\<forall>n \<in> set (value # rest). \<exists>c. map_of endpoints n = Some c \<and> sortable c"
    then obtain c where c: "map_of endpoints value = Some c" "sortable c" by auto
    have 1: "sort_samples c result_list = Inr (result_list @ dfs_order c)"
      using 4(1) [OF c(1)] c(2) by simp
    have "sort_each endpoints rest (result_list @ dfs_order c)
        = Inr ((result_list @ dfs_order c)
               @ concat (map (\<lambda>n. dfs_order (the (map_of endpoints n))) rest))"
      using 4(2) [OF c(1) 1] a by simp
    then show "sort_each endpoints (value # rest) result_list
        = Inr (result_list @ concat (map (\<lambda>n. dfs_order (the (map_of endpoints n))) (value # rest)))"
      using c 1 by simp
  qed
qed


lemma slot_not_Nil: "slot ns m \<noteq> []"
  by (simp add: slot_def)

lemma slot_snoc_MKey: "pre @ [MKey m] = slot ns m' \<Longrightarrow> pre \<noteq> [] \<and> last pre = SKey ''methods''"
  by (cases pre rule: rev_cases) (auto simp: slot_def)

lemma well_formed_lookup1:
  "well_formed (Dict b kvs) \<Longrightarrow> e \<in> set kvs \<Longrightarrow> lookup (Dict b kvs) (fst e # p) = lookup (snd e) p"
  by (cases e) simp

lemma sortable_of_slots:
  assumes "well_formed t" "is_dict t"
    and "\<forall>p x. lookup t p = Some (Obj x) \<longrightarrow> (\<exists>ns m. pre @ p = slot ns m)"
    and "pre = [] \<or> last pre \<noteq> SKey ''methods''"
  shows "sortable t"
  using assms
proof (induction t arbitrary: pre rule: well_formed.induct)
  case (1 x)
  then show ?case by simp
next
  case (2 b kvs)
  have "case fst e of MKey m \<Rightarrow> False
        | SKey n \<Rightarrow> if n = ''methods'' then is_dict (snd e) else sortable (snd e)"
    if e: "e \<in> set kvs" for e
  proof (cases "fst e")
    case (MKey m)
    then obtain x where x: "snd e = Obj x"
      using "2.prems"(1) e by (cases "snd e") auto
    have "lookup (Dict b kvs) [MKey m] = Some (Obj x)"
      using well_formed_lookup1 [OF "2.prems"(1) e, of "[]"] MKey x by simp
    then obtain ns m' where "pre @ [MKey m] = slot ns m'"
      using "2.prems"(3) by blast
    then show ?thesis using slot_snoc_MKey "2.prems"(4) by blast
  next
    case (SKey n)
    have d: "is_dict (snd e)" and wf: "well_formed (snd e)"
      using "2.prems"(1) e SKey by auto
    show ?thesis
    proof (cases "n = ''methods''")
      case True
      then show ?thesis using SKey d by simp
    next
      case False
      have "\<forall>p x. lookup (snd e) p = Some (Obj x) \<longrightarrow> (\<exists>ns m. (pre @ [SKey n]) @ p = slot ns m)"
        using "2.prems"(3) well_formed_lookup1 [OF "2.prems"(1) e] SKey by simp
      then have "sortable (snd e)"
        using "2.IH" [OF e wf d, of "pre @ [SKey n]"] False by simp
      then show ?thesis using SKey False by simp
    qed
  qed
  then show ?case using "2.prems"(1) by simp
qed

lemma tree_inv_sortable:
  assumes "tree_inv home t" "\<And>x. \<exists>ns m. home x = slot ns m"
  shows "sortable t"
proof (rule sortable_of_slots [where pre = "[]"])
  show "\<forall>p x. lookup t p = Some (Obj x) \<longrightarrow> (\<exists>ns m. [] @ p = slot ns m)"
    using assms by (simp add: tree_inv_def at_home_def) metis
qed (use assms in \<open>simp_all add: tree_inv_def\<close>)


text \<open>\<open>dfs_slots\<close> is \<open>dfs_order\<close> with the place of every entry, as followed by \<open>lookup\<close>.\<close>

definition own_slot :: "(dkey \<times> 'a pyobj) list \<Rightarrow> HttpMethod \<Rightarrow> (dkey list \<times> 'a pyobj) list" where
  "own_slot kvs m = map (\<lambda>v. ([SKey ''methods'', MKey m], v)) (own_sample kvs m)"

fun dfs_slots :: "'a pyobj \<Rightarrow> (dkey list \<times> 'a pyobj) list" where
  "dfs_slots (Obj x) = []"
| "dfs_slots (Dict b kvs) =
     own_slot kvs POST @ own_slot kvs GET @ own_slot kvs PUT
     @ concat (map (\<lambda>e. if fst e = SKey ''methods'' then []
                         else map (\<lambda>q. (fst e # fst q, snd q)) (dfs_slots (snd e))) kvs)
     @ own_slot kvs DELETE"

lemma map_snd_own_slot: "map snd (own_slot kvs m) = own_sample kvs m"
  by (simp add: own_slot_def comp_def)

lemma map_snd_dfs_slots: "map snd (dfs_slots t) = dfs_order t"
proof (induction t rule: dfs_order.induct)
  case (1 x)
  show ?case by simp
next
  case (2 b kvs)
  have "map snd (concat (map (\<lambda>e. if fst e = SKey ''methods'' then []
            else map (\<lambda>q. (fst e # fst q, snd q)) (dfs_slots (snd e))) kvs))
      = concat (map (\<lambda>e. if fst e = SKey ''methods'' then [] else dfs_order (snd e)) kvs)"
    using 2 by (induction kvs) (auto simp: comp_def)
  then show ?case by (simp add: map_snd_own_slot)
qed

text \<open>The slots that the traversal reaches: one of the four methods, no key \<open>methods\<close> on the way.\<close>

definition emitted_slot :: "dkey list \<Rightarrow> bool" where
  "emitted_slot p = (\<exists>ns m. p = slot ns m \<and> ''methods'' \<notin> set ns \<and> m \<in> {POST, GET, PUT, DELETE})"

lemma own_sample_lookup:
  "own_sample kvs m =
     (case lookup (Dict b kvs) [SKey ''methods'', MKey m] of None \<Rightarrow> [] | Some v \<Rightarrow> [v])"
proof (cases "map_of kvs (SKey ''methods'')")
  case None
  then show ?thesis by (simp add: own_sample_def)
next
  case (Some d)
  then show ?thesis
    by (cases d) (simp_all add: own_sample_def split: option.splits)
qed

lemma own_slot_mem:
  "(p, x) \<in> set (own_slot kvs m) \<longleftrightarrow>
     p = [SKey ''methods'', MKey m] \<and> lookup (Dict b kvs) [SKey ''methods'', MKey m] = Some x"
  unfolding own_slot_def own_sample_lookup [of kvs m b]
  by (cases "lookup (Dict b kvs) [SKey ''methods'', MKey m]") auto

lemma emitted_slot_Nil: "m \<in> {POST, GET, PUT, DELETE} \<Longrightarrow> emitted_slot [SKey ''methods'', MKey m]"
  unfolding emitted_slot_def slot_def by (rule exI [of _ "[]"]) simp

lemma emitted_slot_Cons:
  assumes "emitted_slot p" "n \<noteq> ''methods''"
  shows "emitted_slot (SKey n # p)"
proof -
  from assms(1) obtain ns m where p: "p = slot ns m" "''methods'' \<notin> set ns"
    "m \<in> {POST, GET, PUT, DELETE}" unfolding emitted_slot_def by blast
  have "SKey n # p = slot (n # ns) m" using p(1) by (simp add: slot_def)
  moreover have "''methods'' \<notin> set (n # ns)" using p(2) assms(2) by simp
  ultimately show ?thesis unfolding emitted_slot_def using p(3) by blast
qed

lemma sortable_entry:
  assumes "sortable (Dict b kvs)" "e \<in> set kvs" "fst e \<noteq> SKey ''methods''"
  obtains n where "fst e = SKey n" "n \<noteq> ''methods''" "sortable (snd e)"
    "\<And>p. lookup (Dict b kvs) (SKey n # p) = lookup (snd e) p"
proof -
  from assms obtain n where n: "fst e = SKey n" by (cases "fst e") fastforce+
  with assms have "n \<noteq> ''methods''" "sortable (snd e)" by fastforce+
  moreover have "map_of kvs (SKey n) = Some (snd e)"
    using assms(1,2) n by (cases e) simp
  ultimately show ?thesis using that [of n] n by simp
qed

lemma dfs_slots_sound:
  "sortable t \<Longrightarrow> (p, x) \<in> set (dfs_slots t) \<Longrightarrow> lookup t p = Some x \<and> emitted_slot p"
proof (induction t arbitrary: p rule: dfs_slots.induct)
  case (1 y)
  then show ?case by simp
next
  case (2 b kvs)
  from "2.prems"(2) consider
      (own) m where "m \<in> {POST, GET, PUT, DELETE}" "(p, x) \<in> set (own_slot kvs m)"
    | (child) e q where "e \<in> set kvs" "fst e \<noteq> SKey ''methods''"
        "(q, x) \<in> set (dfs_slots (snd e))" "p = fst e # q"
    by (auto split: if_splits)
  then show ?case
  proof cases
    case own
    then show ?thesis using own_slot_mem [of p x kvs m b] emitted_slot_Nil [of m] by simp
  next
    case child
    from sortable_entry [OF "2.prems"(1) child(1,2)] obtain n where
      n: "fst e = SKey n" "n \<noteq> ''methods''" "sortable (snd e)"
      "\<And>p. lookup (Dict b kvs) (SKey n # p) = lookup (snd e) p" by blast
    have "lookup (snd e) q = Some x \<and> emitted_slot q"
      using "2.IH" [OF child(1,2) n(3) child(3)] .
    then show ?thesis using n child(4) emitted_slot_Cons by simp
  qed
qed

lemma dfs_slots_complete:
  "sortable t \<Longrightarrow> lookup t (slot ns m) = Some x \<Longrightarrow> ''methods'' \<notin> set ns \<Longrightarrow>
   m \<in> {POST, GET, PUT, DELETE} \<Longrightarrow> (slot ns m, x) \<in> set (dfs_slots t)"
proof (induction ns arbitrary: t)
  case Nil
  from Nil.prems(1) obtain b kvs where t: "t = Dict b kvs" by (cases t) auto
  have "(slot [] m, x) \<in> set (own_slot kvs m)"
    using own_slot_mem [of "slot [] m" x kvs m b] Nil.prems(2) t by (simp add: slot_def)
  then show ?case using Nil.prems(4) t by auto
next
  case (Cons n ns)
  from Cons.prems(1) obtain b kvs where t: "t = Dict b kvs" by (cases t) auto
  from Cons.prems(2) t obtain c where c: "map_of kvs (SKey n) = Some c"
    "lookup c (slot ns m) = Some x"
    by (auto simp: slot_def split: option.splits)
  then have e: "(SKey n, c) \<in> set kvs" by (auto dest: map_of_SomeD)
  have n: "n \<noteq> ''methods''" using Cons.prems(3) by auto
  have "sortable c" using Cons.prems(1) t e n by fastforce
  then have "(slot ns m, x) \<in> set (dfs_slots c)"
    using Cons.IH [of c] c(2) Cons.prems(3,4) by simp
  then have "(slot (n # ns) m, x) \<in> set (map (\<lambda>q. (SKey n # fst q, snd q)) (dfs_slots c))"
    by (force simp: slot_def)
  then show ?case using t e n by force
qed

section \<open>The lookup of the parent result\<close>

text \<open>\<open>post_at t ns\<close> is the POST entry of the node that the keys \<open>ns\<close> lead to.\<close>

definition post_at :: "'a pyobj \<Rightarrow> string list \<Rightarrow> 'a pyobj option" where
  "post_at t ns = lookup t (slot ns POST)"

lemma post_at_Nil:
  "post_at (Dict b kvs) [] =
     (case (case map_of kvs (SKey ''methods'') of None \<Rightarrow> Dict False [] | Some ms \<Rightarrow> ms) of
        Obj x \<Rightarrow> None
      | Dict mb cm \<Rightarrow> map_of cm (MKey POST))"
  by (simp add: post_at_def slot_def split: option.splits pyobj.splits)

lemma post_at_Cons:
  "post_at (Dict b kvs) (k # ns) =
     (case map_of kvs (SKey k) of None \<Rightarrow> None | Some c \<Rightarrow> post_at c ns)"
  by (cases "map_of kvs (SKey k)") (simp_all add: post_at_def slot_def)

lemma post_at_not_truthy: "\<not> truthy (Some c) \<Longrightarrow> post_at c ns = None"
  by (cases c; cases ns) (auto simp: post_at_def slot_def)

lemma get_keys_char:
  assumes "well_formed t" "is_dict t" "ks \<noteq> []"
  shows "\<exists>res. get_keys t ks cur = Inr res \<and>
           ((res = cur \<and> (\<forall>i < length ks. post_at t (take i ks) = None)) \<or>
            (\<exists>i < length ks. post_at t (take i ks) = res \<and> res \<noteq> None \<and>
               (\<forall>j. i < j \<and> j < length ks \<longrightarrow> post_at t (take j ks) = None)))"
  using assms
proof (induction ks arbitrary: t cur)
  case Nil
  then show ?case by simp
next
  case (Cons k ks)
  from Cons.prems obtain b kvs where t: "t = Dict b kvs" by (cases t) auto
  obtain mb cm where cm:
    "(case map_of kvs (SKey ''methods'') of None \<Rightarrow> Dict False [] | Some ms \<Rightarrow> ms) = Dict mb cm"
  proof (cases "map_of kvs (SKey ''methods'')")
    case None
    then show ?thesis using that [of False "[]"] by simp
  next
    case (Some ms)
    then have "is_dict ms" using well_formed_map_of [of b kvs "SKey ''methods''" ms] Cons.prems(1) t by simp
    then show ?thesis using that Some by (cases ms) auto
  qed
  let ?cur1 = "case map_of cm (MKey POST) of None \<Rightarrow> cur | Some v \<Rightarrow> Some v"
  have p0: "post_at t [] = map_of cm (MKey POST)"
    using t cm by (simp add: post_at_Nil)
  have cur1: "(?cur1 = cur \<and> post_at t [] = None) \<or> (post_at t [] = ?cur1 \<and> ?cur1 \<noteq> None)"
    using p0 by (cases "map_of cm (MKey POST)") auto
  have deeper: "post_at t (take (Suc j) (k # ks)) =
      (case map_of kvs (SKey k) of None \<Rightarrow> None | Some c \<Rightarrow> post_at c (take j ks))" for j
    using t by (simp add: post_at_Cons)
  show ?case
  proof (cases "truthy (map_of kvs (SKey k)) \<and> ks \<noteq> []")
    case False
    then have res: "get_keys t (k # ks) cur = Inr ?cur1"
      using t cm by (auto simp: Let_def)
    have none: "post_at t (take j (k # ks)) = None" if "0 < j" "j < length (k # ks)" for j
    proof -
      from that obtain j' where j': "j = Suc j'" by (cases j) auto
      with that False have nt: "\<not> truthy (map_of kvs (SKey k))" by auto
      show ?thesis unfolding j' deeper
        using nt post_at_not_truthy by (cases "map_of kvs (SKey k)") auto
    qed
    from cur1 show ?thesis
    proof
      assume a: "?cur1 = cur \<and> post_at t [] = None"
      have "\<forall>i < length (k # ks). post_at t (take i (k # ks)) = None"
      proof (intro allI impI)
        fix i assume "i < length (k # ks)"
        then show "post_at t (take i (k # ks)) = None"
          using a none [of i] by (cases "i = 0") auto
      qed
      then show ?thesis using res a by auto
    next
      assume a: "post_at t [] = ?cur1 \<and> ?cur1 \<noteq> None"
      have "0 < length (k # ks) \<and> post_at t (take 0 (k # ks)) = ?cur1 \<and> ?cur1 \<noteq> None \<and>
            (\<forall>j. 0 < j \<and> j < length (k # ks) \<longrightarrow> post_at t (take j (k # ks)) = None)"
        using a none by auto
      then show ?thesis using res by blast
    qed
  next
    case True
    then obtain c where c: "map_of kvs (SKey k) = Some c" by (cases "map_of kvs (SKey k)") auto
    have wfc: "well_formed c" "is_dict c"
      using well_formed_map_of [of b kvs "SKey k" c] Cons.prems(1) t c by auto
    have res: "get_keys t (k # ks) cur = get_keys c ks ?cur1"
      using t cm c True by (auto simp: Let_def)
    have deeper': "post_at t (take (Suc j) (k # ks)) = post_at c (take j ks)" for j
      using deeper [of j] c by simp
    from Cons.IH [OF wfc, of ?cur1] True obtain r where
      r: "get_keys c ks ?cur1 = Inr r"
      and alt: "(r = ?cur1 \<and> (\<forall>i < length ks. post_at c (take i ks) = None)) \<or>
            (\<exists>i < length ks. post_at c (take i ks) = r \<and> r \<noteq> None \<and>
               (\<forall>j. i < j \<and> j < length ks \<longrightarrow> post_at c (take j ks) = None))"
      by blast
    from alt show ?thesis
    proof
      assume a: "r = ?cur1 \<and> (\<forall>i < length ks. post_at c (take i ks) = None)"
      have none: "post_at t (take j (k # ks)) = None" if "0 < j" "j < length (k # ks)" for j
      proof -
        from that obtain j' where j': "j = Suc j'" by (cases j) auto
        then show ?thesis using a that deeper' [of j'] by simp
      qed
      from cur1 show ?thesis
      proof
        assume b: "?cur1 = cur \<and> post_at t [] = None"
        have "\<forall>i < length (k # ks). post_at t (take i (k # ks)) = None"
        proof (intro allI impI)
          fix i assume "i < length (k # ks)"
          then show "post_at t (take i (k # ks)) = None"
            using b none [of i] by (cases "i = 0") auto
        qed
        then show ?thesis using res r a b by auto
      next
        assume b: "post_at t [] = ?cur1 \<and> ?cur1 \<noteq> None"
        have "0 < length (k # ks) \<and> post_at t (take 0 (k # ks)) = r \<and> r \<noteq> None \<and>
              (\<forall>j. 0 < j \<and> j < length (k # ks) \<longrightarrow> post_at t (take j (k # ks)) = None)"
          using a b none by auto
        then show ?thesis using res r by (metis (no_types, lifting))
      qed
    next
      assume "\<exists>i < length ks. post_at c (take i ks) = r \<and> r \<noteq> None \<and>
               (\<forall>j. i < j \<and> j < length ks \<longrightarrow> post_at c (take j ks) = None)"
      then obtain i where i: "i < length ks" "post_at c (take i ks) = r" "r \<noteq> None"
        "\<forall>j. i < j \<and> j < length ks \<longrightarrow> post_at c (take j ks) = None" by blast
      have later: "post_at t (take j (k # ks)) = None" if "Suc i < j" "j < length (k # ks)" for j
      proof -
        from that obtain j' where j': "j = Suc j'" by (cases j) auto
        then show ?thesis using i(4) that deeper' [of j'] by simp
      qed
      have "Suc i < length (k # ks) \<and> post_at t (take (Suc i) (k # ks)) = r \<and> r \<noteq> None \<and>
            (\<forall>j. Suc i < j \<and> j < length (k # ks) \<longrightarrow> post_at t (take j (k # ks)) = None)"
        using i deeper' [of i] later by auto
      then show ?thesis using res r by (metis (no_types, lifting))
    qed
  qed
qed

section \<open>Paths and their keys\<close>

lemma split_slash_append:
  "split_slash (x @ CHR ''/'' # y) = split_slash x @ split_slash y"
proof (induction x)
  case Nil
  show ?case by simp
next
  case (Cons c x)
  obtain q qs where q: "split_slash x = q # qs"
    using split_slash_not_Nil [of x] by (cases "split_slash x") auto
  show ?case using Cons q by simp
qed

lemma split_slash_segment: "CHR ''/'' \<notin> set c \<Longrightarrow> split_slash c = [c]"
  by (induction c) auto

lemma split_slash_no_slash: "s \<in> set (split_slash p) \<Longrightarrow> CHR ''/'' \<notin> set s"
proof (induction p arbitrary: s)
  case Nil
  then show ?case by simp
next
  case (Cons c p)
  obtain q qs where q: "split_slash p = q # qs"
    using split_slash_not_Nil [of p] by (cases "split_slash p") auto
  show ?case using Cons q by (auto split: if_splits)
qed

lemma split_join_slash:
  "ps \<noteq> [] \<Longrightarrow> \<forall>s \<in> set ps. CHR ''/'' \<notin> set s \<Longrightarrow> split_slash (join_slash ps) = ps"
proof (induction ps rule: join_slash.induct)
  case 1
  then show ?case by simp
next
  case (2 p)
  then show ?case by (simp add: split_slash_segment)
next
  case (3 p q ps)
  then show ?case by (simp add: split_slash_append split_slash_segment)
qed

lemma join_slash_Nil_iff: "join_slash ps = [] \<longleftrightarrow> ps = [] \<or> ps = [[]]"
  by (induction ps rule: join_slash.induct) auto

text \<open>
  The keys of a path are its parts between the slashes, without the last part when that
  is the empty string (the descent ends as soon as the rest of the path is empty).
\<close>

definition drop_trailing :: "string list \<Rightarrow> string list" where
  "drop_trailing ps = (if 2 \<le> length ps \<and> last ps = [] then butlast ps else ps)"

lemma path_keys_split: "path_keys p = drop_trailing (split_slash p)"
proof (induction p rule: path_keys.induct)
  case (1 p)
  obtain h t where ht: "split_slash p = h # t"
    using split_slash_not_Nil [of p] by (cases "split_slash p") auto
  show ?case
  proof (cases "join_slash t = []")
    case True
    then have "t = [] \<or> t = [[]]" by (simp add: join_slash_Nil_iff)
    then show ?thesis using path_keys_last [of p] True ht
      by (auto simp: drop_trailing_def)
  next
    case False
    have t: "t \<noteq> []" "t \<noteq> [[]]" using False by (auto simp: join_slash_Nil_iff)
    have "\<forall>s \<in> set t. CHR ''/'' \<notin> set s"
      using split_slash_no_slash [of _ p] ht by simp
    then have st: "split_slash (join_slash t) = t" using t(1) by (rule split_join_slash [rotated])
    have "path_keys p = h # path_keys (join_slash t)"
      using path_keys_step [of p] False ht by simp
    also have "path_keys (join_slash t) = drop_trailing t"
      using 1 [OF refl refl refl] False ht st by simp
    also have "h # drop_trailing t = drop_trailing (h # t)"
    proof (cases "last t = []")
      case True
      then have "2 \<le> length t" using t by (cases t rule: rev_cases) (auto simp: Suc_le_eq)
      then show ?thesis using True t by (simp add: drop_trailing_def)
    next
      case False
      then show ?thesis using t by (simp add: drop_trailing_def)
    qed
    finally show ?thesis using ht by simp
  qed
qed

lemma path_keys_segment: "CHR ''/'' \<notin> set p \<Longrightarrow> path_keys p = [p]"
  by (simp add: path_keys_split split_slash_segment drop_trailing_def)

lemma path_keys_last_nonempty: "last (split_slash p) \<noteq> [] \<Longrightarrow> path_keys p = split_slash p"
  by (simp add: path_keys_split drop_trailing_def)

lemma path_keys_child:
  assumes "c \<noteq> []" "CHR ''/'' \<notin> set c"
  shows "path_keys (p @ CHR ''/'' # c) = split_slash p @ [c]"
  using assms by (simp add: path_keys_last_nonempty split_slash_append split_slash_segment)

lemma methods_in_path_keys:
  assumes "''methods'' \<in> set (split_slash p)"
  shows "''methods'' \<in> set (path_keys p)"
proof (cases "2 \<le> length (split_slash p) \<and> last (split_slash p) = []")
  case False
  then show ?thesis using assms by (auto simp: path_keys_split drop_trailing_def)
next
  case True
  then have "split_slash p = butlast (split_slash p) @ [[]]"
    using split_slash_not_Nil [of p] by (metis append_butlast_last_id)
  then have "set (split_slash p) = set (butlast (split_slash p)) \<union> {[]}"
    by (metis Un_insert_right list.simps(15) rotate1.simps(2) set_append set_rotate1 sup_bot.right_neutral empty_set)
  then show ?thesis using assms True by (auto simp: path_keys_split drop_trailing_def)
qed

lemma join_slash_snoc_empty: "ks \<noteq> [] \<Longrightarrow> join_slash (ks @ [[]]) = join_slash ks @ ''/''"
  by (induction ks rule: join_slash.induct) auto

lemma path_keys_eq_prefix:
  assumes "path_keys p = path_keys q"
  shows "prefix p q \<or> prefix q p"
proof -
  have form: "x = join_slash (path_keys x) \<or> x = join_slash (path_keys x) @ ''/''" for x
  proof (cases "2 \<le> length (split_slash x) \<and> last (split_slash x) = []")
    case False
    then have "path_keys x = split_slash x" by (auto simp: path_keys_split drop_trailing_def)
    then show ?thesis using join_split_slash [of x] by simp
  next
    case True
    then have k: "path_keys x = butlast (split_slash x)" by (simp add: path_keys_split drop_trailing_def)
    have s: "split_slash x = butlast (split_slash x) @ [[]]"
      using True split_slash_not_Nil [of x] by (metis append_butlast_last_id)
    have "butlast (split_slash x) \<noteq> []" using True by (cases "split_slash x") (auto split: if_splits)
    then have "join_slash (split_slash x) = join_slash (butlast (split_slash x)) @ ''/''"
      using s join_slash_snoc_empty by metis
    then show ?thesis using k join_split_slash [of x] by simp
  qed
  define j where "j = join_slash (path_keys q)"
  have "p = j \<or> p = j @ ''/''" using form [of p] assms by (simp add: j_def)
  moreover have "q = j \<or> q = j @ ''/''" using form [of q] by (simp add: j_def)
  ultimately show ?thesis by (auto simp: prefix_def)
qed

lemma slot_inject [simp]: "slot ns m = slot ns' m' \<longleftrightarrow> ns = ns' \<and> m = m'"
proof -
  have "inj SKey" by (rule injI) simp
  then have "map SKey ns = map SKey ns' \<longleftrightarrow> ns = ns'" by (rule inj_map_eq_map)
  then show ?thesis by (auto simp: slot_def)
qed

lemma sample_slot_is_slot: "\<exists>ns m. sample_slot x = slot ns m"
  unfolding sample_slot_def by blast

lemma result_slot_is_slot: "\<exists>ns m. result_slot x = slot ns m"
  unfolding result_slot_def by blast

lemma put_all_tree_inv: "put_all empty_tree samples = Inr tree \<Longrightarrow> tree_inv sample_slot tree"
  using tree_inv_put_all [OF tree_inv_empty] .

lemma record_all_tree_inv: "record_all empty_tree results = Inr m \<Longrightarrow> tree_inv result_slot m"
  using tree_inv_record_all [OF tree_inv_empty] .

lemma tree_inv_sorted:
  assumes "tree_inv sample_slot tree"
  shows "list_sorted_samples tree = Inr (dfs_order tree)"
proof -
  have "sortable tree" using assms sample_slot_is_slot by (rule tree_inv_sortable)
  then show ?thesis
    using sort_samples_sort_each_dfs(1) [of tree "[]"] by (simp add: list_sorted_samples_def)
qed

lemma emitted_sample:
  assumes "tree_inv sample_slot tree" "Obj s \<in> set (dfs_order tree)"
  shows "''methods'' \<notin> set (path_keys (lang_value s @ name s))
         \<and> http_method s \<in> {POST, GET, PUT, DELETE}
         \<and> lookup tree (sample_slot s) = Some (Obj s)"
proof -
  have sortable: "sortable tree" using assms(1) sample_slot_is_slot by (rule tree_inv_sortable)
  from assms(2) obtain p where p: "(p, Obj s) \<in> set (dfs_slots tree)"
    unfolding map_snd_dfs_slots [symmetric] by auto
  from dfs_slots_sound [OF sortable p] have l: "lookup tree p = Some (Obj s)"
    and e: "emitted_slot p" by simp_all
  from l assms(1) have home: "p = sample_slot s" by (simp add: tree_inv_def at_home_def)
  from e obtain ns m where nm: "p = slot ns m" "''methods'' \<notin> set ns"
    "m \<in> {POST, GET, PUT, DELETE}" unfolding emitted_slot_def by blast
  from home nm(1) have "ns = path_keys (lang_value s @ name s)" "m = http_method s"
    by (simp_all add: sample_slot_def)
  then show ?thesis using nm(2,3) l home by simp
qed

lemma stored_after_put_keys:
  "put_keys t ks m v = Inr t' \<Longrightarrow> lookup t' (slot ks m) = Some (Obj v)"
  using lookup_put_keys [of t ks m v t' "slot ks m" v] by simp

lemma stored_after_CodeSamplesTree_put:
  "CodeSamplesTree_put t s = Inr t' \<Longrightarrow> lookup t' (sample_slot s) = Some (Obj s)"
  unfolding CodeSamplesTree_put_keys sample_slot_def by (rule stored_after_put_keys)

lemma stored_after_TestExecutionResultMap_put:
  "TestExecutionResultMap_put t r = Inr t' \<Longrightarrow> lookup t' (result_slot r) = Some (Obj r)"
  unfolding TestExecutionResultMap_put_keys result_slot_def by (rule stored_after_put_keys)

lemma tree_inv_slot_Obj:
  assumes "tree_inv home t" "lookup t (slot ns m) = Some v"
  shows "\<exists>x. v = Obj x"
proof -
  have "well_formed t \<Longrightarrow> lookup t (p @ [MKey m]) = Some v \<Longrightarrow> \<not> is_dict v" for p and t :: "'a pyobj"
  proof (induction p arbitrary: t)
    case Nil
    then obtain b kvs where t: "t = Dict b kvs" by (cases t) auto
    with Nil have "map_of kvs (MKey m) = Some v" by (auto split: option.splits)
    then show ?case using well_formed_map_of [of b kvs "MKey m" v] Nil t by simp
  next
    case (Cons k p)
    then obtain b kvs where t: "t = Dict b kvs" by (cases t) auto
    with Cons.prems obtain c where c: "map_of kvs k = Some c" "lookup c (p @ [MKey m]) = Some v"
      by (auto split: option.splits)
    then show ?case using Cons.IH [of c] well_formed_map_of [of b kvs k c] Cons.prems t by simp
  qed
  from this [of t "map SKey ns @ [SKey ''methods'']"] assms
  have "\<not> is_dict v" by (simp add: tree_inv_def slot_def)
  then show ?thesis by (cases v) auto
qed

lemma get_parent_result_keys:
  "get_parent_result m s = get_keys m (path_keys (name s)) None"
  by (simp add: get_parent_result_def get_parent_test_result_keys)

text \<open>What \<open>get_parent_result\<close> returns in a reachable map.\<close>

lemma get_parent_result_char:
  assumes inv: "tree_inv result_slot m"
  shows "(get_parent_result m s = Inr None
            \<and> (\<forall>i < length (path_keys (name s)). post_at m (take i (path_keys (name s))) = None))
         \<or> (\<exists>i r. i < length (path_keys (name s))
              \<and> get_parent_result m s = Inr (Some (Obj r))
              \<and> post_at m (take i (path_keys (name s))) = Some (Obj r)
              \<and> (\<forall>j. i < j \<and> j < length (path_keys (name s)) \<longrightarrow>
                     post_at m (take j (path_keys (name s))) = None))"
proof -
  let ?ks = "path_keys (name s)"
  have wf: "well_formed m" "is_dict m" using inv by (simp_all add: tree_inv_def)
  from get_keys_char [OF wf path_keys_not_Nil, of "name s" None]
  obtain res where res: "get_keys m ?ks None = Inr res"
    and alt: "(res = None \<and> (\<forall>i < length ?ks. post_at m (take i ?ks) = None)) \<or>
       (\<exists>i < length ?ks. post_at m (take i ?ks) = res \<and> res \<noteq> None \<and>
          (\<forall>j. i < j \<and> j < length ?ks \<longrightarrow> post_at m (take j ?ks) = None))"
    by blast
  from alt show ?thesis
  proof
    assume "res = None \<and> (\<forall>i < length ?ks. post_at m (take i ?ks) = None)"
    then show ?thesis using res by (simp add: get_parent_result_keys)
  next
    assume "\<exists>i < length ?ks. post_at m (take i ?ks) = res \<and> res \<noteq> None \<and>
          (\<forall>j. i < j \<and> j < length ?ks \<longrightarrow> post_at m (take j ?ks) = None)"
    then obtain i v where i: "i < length ?ks" "post_at m (take i ?ks) = Some v" "res = Some v"
      "\<forall>j. i < j \<and> j < length ?ks \<longrightarrow> post_at m (take j ?ks) = None" by auto
    from tree_inv_slot_Obj [OF inv, of "take i ?ks" POST v] i(2)
    obtain r where "v = Obj r" by (auto simp: post_at_def)
    then show ?thesis using i res by (auto simp: get_parent_result_keys)
  qed
qed

text \<open>The entry of a path and a method in the map, the place where \<open>put\<close> stores a result.\<close>

definition recorded :: "'a pyobj \<Rightarrow> string \<Rightarrow> HttpMethod \<Rightarrow> 'a pyobj option" where
  "recorded m path method = lookup m (slot (path_keys path) method)"

lemma recorded_after_put:
  "TestExecutionResultMap_put m r = Inr m' \<Longrightarrow>
   recorded m' (name (sample r)) (http_method (sample r)) = Some (Obj r)"
  using stored_after_TestExecutionResultMap_put [of m r m']
  by (simp add: recorded_def result_slot_def)

lemma take_strict_prefix: "i < length ks \<Longrightarrow> strict_prefix (take i ks) ks"
  by (simp add: strict_prefix_def take_is_prefix)

lemma length_drop_trailing: "length (drop_trailing ps) \<le> length ps"
  by (simp add: drop_trailing_def)

lemma slot_prefix:
  assumes "prefix (slot ns m) (slot ns' m')"
  shows "ns = ns' \<and> m = m'"
proof (rule ccontr)
  assume "\<not> (ns = ns' \<and> m = m')"
  then have ne: "slot ns m \<noteq> slot ns' m'" by simp
  from assms obtain zs where zs: "slot ns' m' = slot ns m @ zs" by (auto simp: prefix_def)
  with ne have "zs \<noteq> []" by auto
  then have "butlast (slot ns' m') = slot ns m @ butlast zs"
    using zs by (simp add: butlast_append)
  then have "MKey m \<in> set (butlast (slot ns' m'))" by (simp add: slot_def)
  moreover have "butlast (slot ns' m') = map SKey ns' @ [SKey ''methods'']"
    by (simp add: slot_def butlast_append)
  ultimately show False by auto
qed

lemma kept_after_put_keys:
  assumes "put_keys t ks m v = Inr t'" "lookup t (slot ks' m') = Some (Obj x)"
    "slot ks' m' \<noteq> slot ks m"
  shows "lookup t' (slot ks' m') = Some (Obj x)"
proof -
  have "\<not> prefix (slot ks m) (slot ks' m')" using slot_prefix [of ks m ks' m'] assms(3) by auto
  then show ?thesis using lookup_put_keys [OF assms(1), of "slot ks' m'" x] assms(2,3) by auto
qed

lemma concat_keys_differ:
  assumes "\<not> prefix l1 l2" "\<not> prefix l2 l1"
  shows "path_keys (l1 @ n1) \<noteq> path_keys (l2 @ n2)"
proof
  assume "path_keys (l1 @ n1) = path_keys (l2 @ n2)"
  then have "prefix (l1 @ n1) (l2 @ n2) \<or> prefix (l2 @ n2) (l1 @ n1)" by (rule path_keys_eq_prefix)
  then show False
  proof
    assume "prefix (l1 @ n1) (l2 @ n2)"
    then have "prefix l1 (l2 @ n2)" using prefix_order.trans prefixI by blast
    moreover have "prefix l2 (l2 @ n2)" by simp
    ultimately have "prefix l1 l2 \<or> prefix l2 l1" by (rule prefix_same_cases)
    then show False using assms by blast
  next
    assume "prefix (l2 @ n2) (l1 @ n1)"
    then have "prefix l2 (l1 @ n1)" using prefix_order.trans prefixI by blast
    moreover have "prefix l1 (l1 @ n1)" by simp
    ultimately have "prefix l2 l1 \<or> prefix l1 l2" by (rule prefix_same_cases)
    then show False using assms by blast
  qed
qed

lemma get_parent_body_None: "get_parent_result m s = Inr None \<Longrightarrow> get_parent_body m s = Inr []"
  by (simp add: get_parent_body_def)

lemma get_parent_body_Obj:
  "get_parent_result m s = Inr (Some (Obj r)) \<Longrightarrow>
   get_parent_body m s = Inr (case json_body r of None \<Rightarrow> [] | Some body \<Rightarrow> body)"
  by (simp add: get_parent_body_def split: option.splits)

section \<open>Inserting twice under one key\<close>

lemma dict_set_not_Nil: "dict_set k v kvs \<noteq> []"
  by (cases kvs) auto

lemma truthy_store_method: "store_method d m v = Inr d' \<Longrightarrow> truthy (Some d')"
  by (cases d) (auto simp: dict_set_not_Nil split: option.splits pyobj.splits if_splits)

lemma truthy_put_keys: "put_keys d ks m v = Inr d' \<Longrightarrow> truthy (Some d')"
  by (cases d; cases ks)
     (auto simp: Let_def dict_set_not_Nil split: option.splits sum.splits if_splits)

lemma store_method_twice:
  assumes "store_method d m v1 = Inr d1"
  shows "store_method d1 m v2 = store_method d m v2 \<and> (\<exists>d2. store_method d m v2 = Inr d2)"
proof (cases d)
  case (Obj x)
  with assms show ?thesis by simp
next
  case (Dict b kvs)
  show ?thesis
  proof (cases "map_of kvs (SKey ''methods'')")
    case None
    with assms Dict show ?thesis
      by (auto simp: map_of_dict_set dict_set_twice split: if_splits)
  next
    case (Some ms)
    with assms Dict obtain mb mkvs where "ms = Dict mb mkvs" by (cases ms) auto
    with assms Dict Some show ?thesis
      by (auto simp: map_of_dict_set dict_set_twice)
  qed
qed

lemma put_keys_twice:
  assumes "put_keys t ks m v1 = Inr t1"
  shows "put_keys t1 ks m v2 = put_keys t ks m v2 \<and> (\<exists>t2. put_keys t ks m v2 = Inr t2)"
  using assms
proof (induction ks arbitrary: t t1)
  case Nil
  then show ?case by simp
next
  case (Cons k ks)
  from Cons.prems obtain b kvs where t: "t = Dict b kvs" by (cases t) auto
  let ?kvs1 = "if \<not> truthy (map_of kvs (SKey k)) then dict_set (SKey k) (Dict True []) kvs else kvs"
  from Cons.prems t obtain child where child: "map_of ?kvs1 (SKey k) = Some child"
    by (auto simp: Let_def split: option.splits)
  from Cons.prems t child obtain child1 where
    step1: "(if ks = [] then store_method child m v1 else put_keys child ks m v1) = Inr child1"
    and t1: "t1 = Dict b (dict_set (SKey k) child1 ?kvs1)"
    by (auto simp: Let_def split: option.splits sum.splits if_splits)
  have tr: "truthy (Some child1)"
    using step1 truthy_store_method [of child m v1 child1] truthy_put_keys [of child ks m v1 child1]
    by (cases "ks = []") simp_all
  have step2: "(if ks = [] then store_method child1 m v2 else put_keys child1 ks m v2)
             = (if ks = [] then store_method child m v2 else put_keys child ks m v2)
             \<and> (\<exists>c2. (if ks = [] then store_method child m v2 else put_keys child ks m v2) = Inr c2)"
    using step1 store_method_twice [of child m v1 child1 v2] Cons.IH [of child child1]
    by (cases "ks = []") simp_all
  then obtain c2 where c2: "(if ks = [] then store_method child m v2 else put_keys child ks m v2) = Inr c2"
    "(if ks = [] then store_method child1 m v2 else put_keys child1 ks m v2) = Inr c2" by auto
  have a: "put_keys t (k # ks) m v2 = Inr (Dict b (dict_set (SKey k) c2 ?kvs1))"
    using t child c2(1) by (simp add: Let_def)
  have "put_keys t1 (k # ks) m v2 = Inr (Dict b (dict_set (SKey k) c2 (dict_set (SKey k) child1 ?kvs1)))"
    unfolding t1 using tr c2(2) by (simp add: Let_def map_of_dict_set)
  then show ?case using a by (simp add: dict_set_twice)
qed

lemma keyed_concat_distinct:
  assumes "distinct (map fst es)" "\<forall>e \<in> set es. distinct (map fst (h e))"
  shows "distinct (map fst (concat (map (\<lambda>e. map (\<lambda>q. (fst e # fst q, snd q)) (h e)) es)))"
  using assms
proof (induction es)
  case Nil
  show ?case by simp
next
  case (Cons e es)
  have a: "distinct (map fst (map (\<lambda>q. (fst e # fst q, snd q)) (h e)))"
    using Cons.prems(2) by (simp add: comp_def distinct_map inj_on_def)
  have b: "distinct (map fst (concat (map (\<lambda>e. map (\<lambda>q. (fst e # fst q, snd q)) (h e)) es)))"
    using Cons by simp
  have c: "set (map fst (map (\<lambda>q. (fst e # fst q, snd q)) (h e)))
           \<inter> set (map fst (concat (map (\<lambda>e. map (\<lambda>q. (fst e # fst q, snd q)) (h e)) es))) = {}"
  proof -
    have "False" if p1: "p \<in> set (map fst (map (\<lambda>q. (fst e # fst q, snd q)) (h e)))"
      and p2: "p \<in> set (map fst (concat (map (\<lambda>e. map (\<lambda>q. (fst e # fst q, snd q)) (h e)) es)))" for p
    proof -
      from p1 obtain q where q: "p = fst e # fst q" by auto
      from p2 obtain e' q' where e': "e' \<in> set es" "p = fst e' # fst q'" by auto
      from q e' have "fst e = fst e'" by simp
      with e'(1) have "fst e \<in> fst ` set es" by (metis imageI)
      then show False using Cons.prems(1) by simp
    qed
    then show ?thesis by blast
  qed
  show ?case using a b c by simp
qed

lemma own_slot_cases:
  "own_slot kvs m = [] \<or> (\<exists>v. own_slot kvs m = [([SKey ''methods'', MKey m], v)])"
  by (auto simp: own_slot_def own_sample_def split: option.splits pyobj.splits)

lemma distinct_dfs_slots: "sortable t \<Longrightarrow> distinct (map fst (dfs_slots t))"
proof (induction t rule: dfs_slots.induct)
  case (1 x)
  show ?case by simp
next
  case (2 b kvs)
  let ?h = "\<lambda>e. if fst e = SKey ''methods'' then [] else dfs_slots (snd e)"
  let ?C = "concat (map (\<lambda>e. map (\<lambda>q. (fst e # fst q, snd q)) (?h e)) kvs)"
  have C: "concat (map (\<lambda>e. if fst e = SKey ''methods'' then []
                         else map (\<lambda>q. (fst e # fst q, snd q)) (dfs_slots (snd e))) kvs) = ?C"
    by (rule arg_cong [where f = concat]) (rule map_cong, simp_all)
  have kids: "\<forall>e \<in> set kvs. distinct (map fst (?h e))"
  proof
    fix e assume e: "e \<in> set kvs"
    show "distinct (map fst (?h e))"
    proof (cases "fst e = SKey ''methods''")
      case True
      then show ?thesis by simp
    next
      case False
      from sortable_entry [OF "2.prems" e False] have "sortable (snd e)" by blast
      then show ?thesis using "2.IH" [OF e False] False by simp
    qed
  qed
  have dC: "distinct (map fst ?C)"
    using "2.prems" kids by (intro keyed_concat_distinct) simp_all
  have hdC: "\<forall>p \<in> set (map fst ?C). \<exists>k r. p = k # r \<and> k \<noteq> SKey ''methods''"
  proof
    fix p assume "p \<in> set (map fst ?C)"
    then obtain e q where e: "e \<in> set kvs" "q \<in> set (?h e)" "p = fst e # fst q" by auto
    then have "fst e \<noteq> SKey ''methods''" by (auto split: if_splits)
    then show "\<exists>k r. p = k # r \<and> k \<noteq> SKey ''methods''" using e(3) by blast
  qed
  have own: "map fst (own_slot kvs m) = [] \<or> map fst (own_slot kvs m) = [[SKey ''methods'', MKey m]]" for m
    using own_slot_cases [of kvs m] by auto
  define ps where "ps = map fst ?C"
  have dps: "distinct ps" using dC by (simp add: ps_def)
  have nps: "[SKey ''methods'', MKey m] \<notin> set ps" for m
    using hdC unfolding ps_def by blast
  have "distinct (map fst (own_slot kvs POST) @ map fst (own_slot kvs GET)
          @ map fst (own_slot kvs PUT) @ ps @ map fst (own_slot kvs DELETE))"
    using own [of POST] own [of GET] own [of PUT] own [of DELETE] dps nps
    by (elim disjE) simp_all
  then show ?case unfolding dfs_slots.simps C ps_def by simp
qed

lemma filter_fst_distinct:
  "distinct (map fst l) \<Longrightarrow> (a, b) \<in> set l \<Longrightarrow> filter (\<lambda>e. fst e = a) l = [(a, b)]"
proof (induction l)
  case Nil
  then show ?case by simp
next
  case (Cons e l)
  show ?case
  proof (cases "e = (a, b)")
    case True
    have "filter (\<lambda>e. fst e = a) l = []"
      using Cons.prems(1) True by (auto simp: filter_empty_conv image_iff)
    then show ?thesis using True by simp
  next
    case False
    then have "(a, b) \<in> set l" using Cons.prems(2) by simp
    moreover from this have "fst e \<noteq> a" using Cons.prems(1) by (auto simp: image_iff)
    ultimately show ?thesis using Cons by simp
  qed
qed

text \<open>An entry of the sorted list belongs to the key \<open>(language, path, method)\<close> of a sample.\<close>

fun same_key :: "CodeSample \<Rightarrow> CodeSample pyobj \<Rightarrow> bool" where
  "same_key s (Obj x) =
     (lang_value x = lang_value s \<and> name x = name s \<and> http_method x = http_method s)"
| "same_key s (Dict b kvs) = False"

lemma same_key_slot: "same_key s (Obj x) \<Longrightarrow> sample_slot x = sample_slot s"
  by (simp add: sample_slot_def)

lemma path_keys_subset_split: "set (path_keys p) \<subseteq> set (split_slash p)"
  by (auto simp: path_keys_split drop_trailing_def dest: in_set_butlastD)

lemma only_entry_of_key:
  assumes "tree_inv sample_slot t" "lookup t (sample_slot s) = Some (Obj s)"
    and "lookup t p = Some (Obj x)" "same_key s (Obj x)"
  shows "x = s"
proof -
  have "p = sample_slot x" using assms(1,3) by (simp add: tree_inv_def at_home_def)
  then have "p = sample_slot s" using same_key_slot [OF assms(4)] by simp
  then show ?thesis using assms(2,3) by simp
qed

lemma listed_once:
  assumes inv: "tree_inv sample_slot t" and stored: "lookup t (sample_slot s) = Some (Obj s)"
    and m: "http_method s \<in> {POST, GET, PUT, DELETE}"
    and k: "''methods'' \<notin> set (path_keys (lang_value s @ name s))"
  shows "filter (same_key s) (dfs_order t) = [Obj s]"
proof -
  have sortable: "sortable t" using inv sample_slot_is_slot by (rule tree_inv_sortable)
  have mem: "(sample_slot s, Obj s) \<in> set (dfs_slots t)"
    unfolding sample_slot_def
    by (rule dfs_slots_complete [OF sortable _ k m]) (use stored in \<open>simp add: sample_slot_def\<close>)
  have d: "distinct (map fst (dfs_slots t))" using sortable by (rule distinct_dfs_slots)
  have iff: "same_key s (snd e) \<longleftrightarrow> fst e = sample_slot s" if e: "e \<in> set (dfs_slots t)" for e
  proof -
    have l: "lookup t (fst e) = Some (snd e)"
      using dfs_slots_sound [OF sortable, of "fst e" "snd e"] e by simp
    show ?thesis
    proof
      assume sk: "same_key s (snd e)"
      obtain x where x: "snd e = Obj x" using sk by (cases "snd e") auto
      have "lookup t (fst e) = Some (Obj x)" using l x by simp
      then have "fst e = sample_slot x" using inv by (simp add: tree_inv_def at_home_def)
      moreover have "sample_slot x = sample_slot s" using sk x by (simp add: sample_slot_def)
      ultimately show "fst e = sample_slot s" by simp
    next
      assume "fst e = sample_slot s"
      then have "snd e = Obj s" using l stored by simp
      then show "same_key s (snd e)" by simp
    qed
  qed
  have "filter (same_key s) (dfs_order t) = map snd (filter (\<lambda>e. same_key s (snd e)) (dfs_slots t))"
    unfolding map_snd_dfs_slots [symmetric] by (simp add: filter_map comp_def)
  also have "filter (\<lambda>e. same_key s (snd e)) (dfs_slots t)
           = filter (\<lambda>e. fst e = sample_slot s) (dfs_slots t)"
    by (rule filter_cong) (simp_all add: iff)
  also have "\<dots> = [(sample_slot s, Obj s)]" using d mem by (rule filter_fst_distinct)
  finally show ?thesis by simp
qed

lemma CodeSamplesTree_put_twice:
  assumes "lang_value s2 = lang_value s1" "name s2 = name s1" "http_method s2 = http_method s1"
    and "CodeSamplesTree_put t s1 = Inr t1"
  shows "\<exists>t2. CodeSamplesTree_put t1 s2 = Inr t2 \<and> CodeSamplesTree_put t s2 = Inr t2"
proof -
  have "put_keys t (path_keys (lang_value s1 @ name s1)) (http_method s1) s1 = Inr t1"
    using assms(4) by (simp only: CodeSamplesTree_put_keys)
  from put_keys_twice [OF this, of s2] show ?thesis
    by (simp only: CodeSamplesTree_put_keys assms(1-3)) blast
qed

lemma TestExecutionResultMap_put_twice:
  assumes "name (sample r2) = name (sample r1)" "http_method (sample r2) = http_method (sample r1)"
    and "TestExecutionResultMap_put m r1 = Inr m1"
  shows "\<exists>m2. TestExecutionResultMap_put m1 r2 = Inr m2 \<and> TestExecutionResultMap_put m r2 = Inr m2"
proof -
  have "put_keys m (path_keys (name (sample r1))) (http_method (sample r1)) r1 = Inr m1"
    using assms(3) by (simp only: TestExecutionResultMap_put_keys)
  from put_keys_twice [OF this, of r2] show ?thesis
    by (simp only: TestExecutionResultMap_put_keys assms(1,2)) blast
qed

lemma split_slash_unslashed_prefix:
  "CHR ''/'' \<notin> set l \<Longrightarrow>
   split_slash (l @ n) = (l @ hd (split_slash n)) # tl (split_slash n)"
proof (induction l)
  case Nil
  then show ?case using split_slash_not_Nil [of n] by simp
next
  case (Cons c l)
  then show ?case by auto
qed

lemma hd_drop_trailing: "hd (drop_trailing ps) = hd ps"
proof (cases ps)
  case Nil
  then show ?thesis by (simp add: drop_trailing_def)
next
  case (Cons p qs)
  then show ?thesis by (cases qs) (simp_all add: drop_trailing_def)
qed

lemma hd_path_keys_unslashed_prefix:
  "CHR ''/'' \<notin> set l \<Longrightarrow> hd (path_keys (l @ n)) = l @ hd (split_slash n)"
  by (simp add: path_keys_split hd_drop_trailing split_slash_unslashed_prefix)

lemma unslashed_keys_differ:
  assumes "l1 \<noteq> l2" "CHR ''/'' \<notin> set l1" "CHR ''/'' \<notin> set l2"
    and "n1 = n2 \<or> (prefix ''/'' n1 \<and> prefix ''/'' n2)"
  shows "path_keys (l1 @ n1) \<noteq> path_keys (l2 @ n2)"
proof
  assume "path_keys (l1 @ n1) = path_keys (l2 @ n2)"
  then have "hd (path_keys (l1 @ n1)) = hd (path_keys (l2 @ n2))" by simp
  then have e: "l1 @ hd (split_slash n1) = l2 @ hd (split_slash n2)"
    using assms(2,3) by (simp add: hd_path_keys_unslashed_prefix)
  from assms(4) show False
  proof
    assume "n1 = n2"
    then show False using e assms(1) by simp
  next
    assume "prefix ''/'' n1 \<and> prefix ''/'' n2"
    then obtain r1 r2 where "n1 = CHR ''/'' # r1" "n2 = CHR ''/'' # r2"
      by (auto simp: prefix_def)
    then show False using e assms(1) by simp
  qed
qed

section \<open>Claims\<close>

text \<open>
  C5 (the claim: no operation of the core ever raises, for arbitrary path strings). The
  code does raise: once a node holds a method map, which is a plain dictionary, a path
  whose next segment is the string \<open>methods\<close> ends in that plain dictionary, and
  \<open>current_dict[current_path]['methods']\<close> raises \<open>KeyError\<close>. This holds for
  \<open>CodeSamplesTree.put\<close> and for \<open>TestExecutionResultMap.put\<close> alike.
\<close>

theorem C5_put_raises_KeyError:
  "put_all empty_tree
     [\<lparr>lang_value = ''python'', name = ''/a'', http_method = POST, source = []\<rparr>,
      \<lparr>lang_value = ''python'', name = ''/a/methods'', http_method = GET, source = []\<rparr>]
   = Inl KeyError
   \<and> record_all empty_tree
     [\<lparr>sample = \<lparr>lang_value = ''python'', name = ''/a'', http_method = POST, source = []\<rparr>,
       json_body = None, passed = True\<rparr>,
      \<lparr>sample = \<lparr>lang_value = ''python'', name = ''/a/methods'', http_method = GET, source = []\<rparr>,
       json_body = None, passed = True\<rparr>]
   = Inl KeyError"
  by code_simp

text \<open>
  C2 (the claim: for samples of one language at paths \<open>p\<close> and \<open>p/c\<close> that both carry a
  POST sample, the POST of \<open>p\<close> precedes the POST of \<open>p/c\<close> in the sorted list). With
  \<open>c = methods\<close> the child's sample is stored where the traversal looks for the method map
  of \<open>p\<close>, and it is not in the sorted list at all.
\<close>

theorem C2_child_named_methods_dropped:
  "sorted_after
     [\<lparr>lang_value = ''python'', name = ''/a/methods'', http_method = POST, source = []\<rparr>,
      \<lparr>lang_value = ''python'', name = ''/a'', http_method = POST, source = []\<rparr>]
   = Inr [Obj \<lparr>lang_value = ''python'', name = ''/a'', http_method = POST, source = []\<rparr>]"
  by code_simp

text \<open>
  Three samples of one language, a GET sample of \<open>/a/methods\<close> and a POST and a DELETE
  sample of \<open>/a\<close>, and the tree that inserting them in this order builds.
\<close>

definition a_methods_get :: CodeSample where
  "a_methods_get = \<lparr>lang_value = ''python'', name = ''/a/methods'', http_method = GET, source = []\<rparr>"

definition a_post :: CodeSample where
  "a_post = \<lparr>lang_value = ''python'', name = ''/a'', http_method = POST, source = []\<rparr>"

definition a_delete :: CodeSample where
  "a_delete = \<lparr>lang_value = ''python'', name = ''/a'', http_method = DELETE, source = []\<rparr>"

definition a_methods_tree :: "CodeSample pyobj" where
  "a_methods_tree =
     Dict False
      [(SKey ''python'',
        Dict True
         [(SKey ''a'',
           Dict True
            [(SKey ''methods'',
              Dict True
               [(SKey ''methods'', Dict False [(MKey GET, Obj a_methods_get)]),
                (MKey POST, Obj a_post),
                (MKey DELETE, Obj a_delete)])])])]"

text \<open>
  C1 (the claim: in every state of the tree, \<open>list_sorted_samples\<close> gives at each node
  the node's own POST, GET and PUT sample, then the complete sequences of all of its
  child nodes, and its own DELETE sample after all descendants). The code keeps the
  method map of a node under the string key \<open>methods\<close>, in the same dictionary as the
  child nodes, and the traversal leaves that key out of the recursion. A child node whose
  path segment is \<open>methods\<close> is therefore stored but never visited: with a GET sample of
  \<open>/a/methods\<close> and a POST and a DELETE sample of \<open>/a\<close>, all three samples are in the
  tree, and the sorted list is the POST and the DELETE of \<open>/a\<close> with nothing of the child
  node between them.
\<close>

theorem C1_child_node_methods_not_visited:
  "put_all empty_tree [a_methods_get, a_post, a_delete] = Inr a_methods_tree
   \<and> lookup a_methods_tree (sample_slot a_methods_get) = Some (Obj a_methods_get)
   \<and> lookup a_methods_tree (sample_slot a_post) = Some (Obj a_post)
   \<and> lookup a_methods_tree (sample_slot a_delete) = Some (Obj a_delete)
   \<and> list_sorted_samples a_methods_tree = Inr [Obj a_post, Obj a_delete]"
  by code_simp

text \<open>
  The scenario of the specification, in which no path segment is \<open>methods\<close>: the five
  samples of \<open>items\<close> and \<open>items/{id}\<close> of one language are listed as items:POST,
  items:GET, items/{id}:GET, items/{id}:DELETE, items:DELETE.
\<close>

definition items_samples :: "CodeSample list" where
  "items_samples =
     [\<lparr>lang_value = ''python'', name = ''items'', http_method = POST, source = []\<rparr>,
      \<lparr>lang_value = ''python'', name = ''items'', http_method = GET, source = []\<rparr>,
      \<lparr>lang_value = ''python'', name = ''items/{id}'', http_method = GET, source = []\<rparr>,
      \<lparr>lang_value = ''python'', name = ''items/{id}'', http_method = DELETE, source = []\<rparr>,
      \<lparr>lang_value = ''python'', name = ''items'', http_method = DELETE, source = []\<rparr>]"

lemma items_scenario_order:
  "sorted_after items_samples =
       Inr [Obj \<lparr>lang_value = ''python'', name = ''items'', http_method = POST, source = []\<rparr>,
            Obj \<lparr>lang_value = ''python'', name = ''items'', http_method = GET, source = []\<rparr>,
            Obj \<lparr>lang_value = ''python'', name = ''items/{id}'', http_method = GET, source = []\<rparr>,
            Obj \<lparr>lang_value = ''python'', name = ''items/{id}'', http_method = DELETE, source = []\<rparr>,
            Obj \<lparr>lang_value = ''python'', name = ''items'', http_method = DELETE, source = []\<rparr>]"
  by code_simp

text \<open>
  C9. A sample whose HTTP method is none of POST, GET, PUT, DELETE is stored by \<open>put\<close>
  (it is the entry of its method in the method map of its node), and no state that
  \<open>put\<close> calls can reach lists it in \<open>list_sorted_samples\<close>.
\<close>

theorem C9_other_methods_stored_not_listed:
  assumes "put_all empty_tree samples = Inr tree"
    and "http_method s \<notin> {POST, GET, PUT, DELETE}"
  shows "(\<forall>tree'. CodeSamplesTree_put tree s = Inr tree' \<longrightarrow>
            lookup tree' (sample_slot s) = Some (Obj s))
         \<and> (\<exists>out. list_sorted_samples tree = Inr out \<and> Obj s \<notin> set out)"
proof -
  have inv: "tree_inv sample_slot tree" using assms(1) by (rule put_all_tree_inv)
  have "Obj s \<notin> set (dfs_order tree)"
    using emitted_sample [OF inv, of s] assms(2) by blast
  then show ?thesis
    using tree_inv_sorted [OF inv] stored_after_CodeSamplesTree_put by blast
qed

text \<open>
  A PATCH sample: stored in the tree once inserted, and absent from the sorted list of the
  tree that holds it.
\<close>

definition patch_sample :: CodeSample where
  "patch_sample = \<lparr>lang_value = ''python'', name = ''/a'', http_method = OTHER ''PATCH'', source = []\<rparr>"

definition patch_tree :: "CodeSample pyobj" where
  "patch_tree =
     Dict False
      [(SKey ''python'',
        Dict True
         [(SKey ''a'',
           Dict True
            [(SKey ''methods'', Dict False [(MKey (OTHER ''PATCH''), Obj patch_sample)])])])]"

theorem C9_patch_witness:
  "put_all empty_tree [patch_sample] = Inr patch_tree
   \<and> CodeSamplesTree_put patch_tree patch_sample = Inr patch_tree
   \<and> lookup patch_tree (sample_slot patch_sample) = Some (Obj patch_sample)
   \<and> list_sorted_samples patch_tree = Inr []"
proof -
  have h: "put_all empty_tree [patch_sample] = Inr patch_tree" by code_simp
  have m: "http_method patch_sample \<notin> {POST, GET, PUT, DELETE}" by (simp add: patch_sample_def)
  have p: "CodeSamplesTree_put patch_tree patch_sample = Inr patch_tree" by code_simp
  have l: "list_sorted_samples patch_tree = Inr []" by code_simp
  from C9_other_methods_stored_not_listed [OF h m] p
  have "lookup patch_tree (sample_slot patch_sample) = Some (Obj patch_sample)" by blast
  with h p l show ?thesis by simp
qed

text \<open>
  C10. A sample whose key \<open>language + path\<close> has a segment equal to \<open>methods\<close> is listed
  by \<open>list_sorted_samples\<close> in no state that \<open>put\<close> calls can reach: the traversal reads
  the key \<open>methods\<close> of a node as its method map and does not descend into it.
\<close>

theorem C10_methods_segment_never_listed:
  assumes "put_all empty_tree samples = Inr tree"
    and "''methods'' \<in> set (split_slash (lang_value s @ name s))"
  shows "\<exists>out. list_sorted_samples tree = Inr out \<and> Obj s \<notin> set out"
proof -
  have inv: "tree_inv sample_slot tree" using assms(1) by (rule put_all_tree_inv)
  have "''methods'' \<in> set (path_keys (lang_value s @ name s))"
    using assms(2) by (rule methods_in_path_keys)
  then have "Obj s \<notin> set (dfs_order tree)"
    using emitted_sample [OF inv, of s] by blast
  then show ?thesis using tree_inv_sorted [OF inv] by blast
qed

text \<open>The sample of \<open>/a/methods\<close>, inserted alone: the tree holds it, the sorted list is empty.\<close>

definition methods_sample :: CodeSample where
  "methods_sample = \<lparr>lang_value = ''python'', name = ''/a/methods'', http_method = GET, source = []\<rparr>"

definition methods_tree :: "CodeSample pyobj" where
  "methods_tree =
     Dict False
      [(SKey ''python'',
        Dict True
         [(SKey ''a'',
           Dict True
            [(SKey ''methods'',
              Dict True
               [(SKey ''methods'', Dict False [(MKey GET, Obj methods_sample)])])])])]"

theorem C10_methods_witness:
  "put_all empty_tree [methods_sample] = Inr methods_tree
   \<and> ''methods'' \<in> set (split_slash (lang_value methods_sample @ name methods_sample))
   \<and> list_sorted_samples methods_tree = Inr []"
proof -
  have h: "put_all empty_tree [methods_sample] = Inr methods_tree" by code_simp
  have m: "''methods'' \<in> set (split_slash (lang_value methods_sample @ name methods_sample))"
    by code_simp
  have l: "list_sorted_samples methods_tree = Inr []" by code_simp
  from C10_methods_segment_never_listed [OF h m]
  have "\<exists>out. list_sorted_samples methods_tree = Inr out \<and> Obj methods_sample \<notin> set out" .
  with h m l show ?thesis by simp
qed

text \<open>
  C4. In every state that \<open>put\<close> calls can reach, a result that \<open>get_parent_result\<close>
  returns for a sample is a POST result recorded at a strict ancestor: the keys of its
  path are a proper prefix of the keys of the sample's path, so it is never a result
  recorded at the sample's own path.
\<close>

theorem C4_parent_is_strict_ancestor:
  assumes "record_all empty_tree results = Inr m"
    and "get_parent_result m s = Inr (Some found)"
  shows "\<exists>r. found = Obj r
           \<and> lookup m (result_slot r) = Some (Obj r)
           \<and> http_method (sample r) = POST
           \<and> strict_prefix (path_keys (name (sample r))) (path_keys (name s))
           \<and> name (sample r) \<noteq> name s"
proof -
  have inv: "tree_inv result_slot m" using assms(1) by (rule record_all_tree_inv)
  let ?ks = "path_keys (name s)"
  from get_parent_result_char [OF inv, of s] assms(2)
  obtain i r where i: "i < length ?ks" "found = Obj r" "post_at m (take i ?ks) = Some (Obj r)"
    by auto
  have "slot (take i ?ks) POST = result_slot r"
    using i(3) inv by (simp add: post_at_def tree_inv_def at_home_def)
  then have k: "path_keys (name (sample r)) = take i ?ks" and p: "http_method (sample r) = POST"
    by (simp_all add: result_slot_def)
  have sp: "strict_prefix (take i ?ks) ?ks"
    using i(1) by (simp add: strict_prefix_def take_is_prefix)
  then have "name (sample r) \<noteq> name s" using k by auto
  then show ?thesis using i(2,3) k p sp \<open>slot (take i ?ks) POST = result_slot r\<close>
    by (auto simp: post_at_def)
qed


text \<open>
  Two results, for \<open>a\<close> and \<open>a/b\<close>, and the map that recording them builds. For the
  sample of \<open>a/b\<close> itself the parent is the result of \<open>a\<close>, not its own.
\<close>

definition result_a :: ApiTestResult where
  "result_a = \<lparr>sample = \<lparr>lang_value = ''python'', name = ''a'', http_method = POST, source = []\<rparr>,
               json_body = Some [(''id'', ''1'')], passed = True\<rparr>"

definition result_ab :: ApiTestResult where
  "result_ab = \<lparr>sample = \<lparr>lang_value = ''python'', name = ''a/b'', http_method = POST, source = []\<rparr>,
                json_body = Some [(''id'', ''2'')], passed = True\<rparr>"

definition ab_map :: "ApiTestResult pyobj" where
  "ab_map =
     Dict False
      [(SKey ''a'',
        Dict True
         [(SKey ''methods'', Dict False [(MKey POST, Obj result_a)]),
          (SKey ''b'', Dict True [(SKey ''methods'', Dict False [(MKey POST, Obj result_ab)])])])]"

theorem C4_own_result_witness:
  "record_all empty_tree [result_a, result_ab] = Inr ab_map
   \<and> get_parent_result ab_map (sample result_ab) = Inr (Some (Obj result_a))
   \<and> strict_prefix (path_keys (name (sample result_a))) (path_keys (name (sample result_ab)))
   \<and> name (sample result_a) \<noteq> name (sample result_ab)"
proof -
  have h: "record_all empty_tree [result_a, result_ab] = Inr ab_map" by code_simp
  have g: "get_parent_result ab_map (sample result_ab) = Inr (Some (Obj result_a))" by code_simp
  from C4_parent_is_strict_ancestor [OF h g]
  have "strict_prefix (path_keys (name (sample result_a))) (path_keys (name (sample result_ab)))
        \<and> name (sample result_a) \<noteq> name (sample result_ab)" by auto
  with h g show ?thesis by simp
qed

text \<open>
  C3. \<open>recorded m path method\<close> is the entry of the map for a path and a method, the place
  where \<open>put\<close> stores a result. If POST results are recorded for \<open>a\<close> and for \<open>a/b\<close>, then
  for every sample whose path is \<open>a/b/c\<close> (\<open>b\<close> and \<open>c\<close> path segments: not empty, without
  \<open>/\<close>) \<open>get_parent_result\<close> returns the result recorded at \<open>a/b\<close>, which is not the one
  recorded at \<open>a\<close>.
\<close>

theorem C3_nearest_ancestor_wins:
  assumes "record_all empty_tree results = Inr m"
    and "recorded m a POST = Some (Obj ra)"
    and "recorded m (a @ ''/'' @ b) POST = Some (Obj rb)"
    and "b \<noteq> []" "CHR ''/'' \<notin> set b" "c \<noteq> []" "CHR ''/'' \<notin> set c"
    and "name s = a @ ''/'' @ b @ ''/'' @ c"
  shows "get_parent_result m s = Inr (Some (Obj rb)) \<and> rb \<noteq> ra"
proof -
  have inv: "tree_inv result_slot m" using assms(1) by (rule record_all_tree_inv)
  let ?K = "split_slash a @ [b]"
  have kab: "path_keys (a @ ''/'' @ b) = ?K"
    using path_keys_child [of b a] assms(4,5) by simp
  have "path_keys (name s) = split_slash (a @ ''/'' @ b) @ [c]"
    using path_keys_child [of c "a @ ''/'' @ b"] assms(6,7,8) by simp
  then have ks: "path_keys (name s) = ?K @ [c]"
    using assms(5) by (simp add: split_slash_append split_slash_segment)
  have pK: "post_at m ?K = Some (Obj rb)"
    using assms(3) kab by (simp add: recorded_def post_at_def)
  have tK: "take (length ?K) (path_keys (name s)) = ?K" using ks by simp
  have lt: "length ?K < length (path_keys (name s))" using ks by simp
  have le: "length (path_keys (name s)) = Suc (length ?K)" using ks by simp
  from get_parent_result_char [OF inv, of s]
  have "get_parent_result m s = Inr (Some (Obj rb))"
  proof
    assume "get_parent_result m s = Inr None
            \<and> (\<forall>i < length (path_keys (name s)). post_at m (take i (path_keys (name s))) = None)"
    then have "post_at m (take (length ?K) (path_keys (name s))) = None" using lt by blast
    then show ?thesis using pK tK by simp
  next
    assume "\<exists>i r. i < length (path_keys (name s))
              \<and> get_parent_result m s = Inr (Some (Obj r))
              \<and> post_at m (take i (path_keys (name s))) = Some (Obj r)
              \<and> (\<forall>j. i < j \<and> j < length (path_keys (name s)) \<longrightarrow>
                     post_at m (take j (path_keys (name s))) = None)"
    then obtain i r where i: "i < length (path_keys (name s))"
      "get_parent_result m s = Inr (Some (Obj r))"
      "post_at m (take i (path_keys (name s))) = Some (Obj r)"
      "\<forall>j. i < j \<and> j < length (path_keys (name s)) \<longrightarrow>
           post_at m (take j (path_keys (name s))) = None" by blast
    have "\<not> i < length ?K"
    proof
      assume "i < length ?K"
      then have "post_at m (take (length ?K) (path_keys (name s))) = None"
        using i(4) lt by blast
      then show False using pK tK by simp
    qed
    then have "i = length ?K" using i(1) le by linarith
    then show ?thesis using i(2,3) pK tK by simp
  qed
  moreover have "rb \<noteq> ra"
  proof
    assume "rb = ra"
    have "slot (path_keys a) POST = result_slot ra"
      using assms(2) inv by (simp add: recorded_def tree_inv_def at_home_def)
    moreover have "slot ?K POST = result_slot rb"
      using pK inv by (simp add: post_at_def tree_inv_def at_home_def)
    ultimately have "slot (path_keys a) POST = slot ?K POST" using \<open>rb = ra\<close> by simp
    then have "path_keys a = ?K" by simp
    then show False
      using length_drop_trailing [of "split_slash a"] by (simp add: path_keys_split)
  qed
  ultimately show ?thesis by simp
qed

text \<open>The results of \<open>a\<close> and \<open>a/b\<close> recorded, and a sample of \<open>a/b/c\<close>.\<close>

theorem C3_abc_witness:
  "record_all empty_tree [result_a, result_ab] = Inr ab_map
   \<and> recorded ab_map ''a'' POST = Some (Obj result_a)
   \<and> recorded ab_map (''a'' @ ''/'' @ ''b'') POST = Some (Obj result_ab)
   \<and> get_parent_result ab_map
        \<lparr>lang_value = ''python'', name = ''a'' @ ''/'' @ ''b'' @ ''/'' @ ''c'', http_method = GET, source = []\<rparr>
      = Inr (Some (Obj result_ab))
   \<and> result_ab \<noteq> result_a"
proof -
  have h: "record_all empty_tree [result_a, result_ab] = Inr ab_map" by code_simp
  have ra: "recorded ab_map ''a'' POST = Some (Obj result_a)" by code_simp
  have rb: "recorded ab_map (''a'' @ ''/'' @ ''b'') POST = Some (Obj result_ab)" by code_simp
  from C3_nearest_ancestor_wins [OF h ra rb, of "''c''"
      "\<lparr>lang_value = ''python'', name = ''a'' @ ''/'' @ ''b'' @ ''/'' @ ''c'', http_method = GET, source = []\<rparr>"]
  have "get_parent_result ab_map
        \<lparr>lang_value = ''python'', name = ''a'' @ ''/'' @ ''b'' @ ''/'' @ ''c'', http_method = GET, source = []\<rparr>
      = Inr (Some (Obj result_ab)) \<and> result_ab \<noteq> result_a" by simp
  with h ra rb show ?thesis by simp
qed

text \<open>
  C8 (the claim: two samples with different languages are stored under distinct key
  paths and never overwrite one another). The key is the plain concatenation of the
  language value and the path, so it can be the same for two languages: the language
  value \<open>java\<close> with the path \<open>script/x\<close> and the language value \<open>javascript\<close> with the
  path \<open>/x\<close> both give \<open>javascript/x\<close>. The second sample then replaces the first in the
  tree, and the sorted list holds the second only.
\<close>

definition java_script_x :: CodeSample where
  "java_script_x = \<lparr>lang_value = ''java'', name = ''script/x'', http_method = GET, source = []\<rparr>"

definition javascript_x :: CodeSample where
  "javascript_x = \<lparr>lang_value = ''javascript'', name = ''/x'', http_method = GET, source = []\<rparr>"

theorem C8_java_script_counterexample:
  "lang_value java_script_x \<noteq> lang_value javascript_x
   \<and> path_keys (lang_value java_script_x @ name java_script_x)
       = path_keys (lang_value javascript_x @ name javascript_x)
   \<and> put_all empty_tree [java_script_x, javascript_x] = put_all empty_tree [javascript_x]
   \<and> sorted_after [java_script_x] = Inr [Obj java_script_x]
   \<and> sorted_after [java_script_x, javascript_x] = Inr [Obj javascript_x]"
  by code_simp

text \<open>
  C8 as amended. The language enumeration is not among the sources, so the language
  value is any string. Two samples with different language values are stored along
  different key sequences, and in whatever tree holds the first, inserting the second
  leaves the first stored beside it, whenever neither language value is a prefix of the
  other (whatever the two paths are), and also whenever the language values contain no
  \<open>/\<close> and the two paths are equal or both begin with \<open>/\<close>.
\<close>

theorem C8_different_languages_kept_apart:
  assumes "lang_value s1 \<noteq> lang_value s2"
    and "(\<not> prefix (lang_value s1) (lang_value s2) \<and> \<not> prefix (lang_value s2) (lang_value s1))
         \<or> (CHR ''/'' \<notin> set (lang_value s1) \<and> CHR ''/'' \<notin> set (lang_value s2)
             \<and> (name s1 = name s2 \<or> (prefix ''/'' (name s1) \<and> prefix ''/'' (name s2))))"
  shows "path_keys (lang_value s1 @ name s1) \<noteq> path_keys (lang_value s2 @ name s2)
         \<and> (\<forall>t t'. lookup t (sample_slot s1) = Some (Obj s1) \<and> CodeSamplesTree_put t s2 = Inr t' \<longrightarrow>
               lookup t' (sample_slot s1) = Some (Obj s1)
               \<and> lookup t' (sample_slot s2) = Some (Obj s2))"
proof (intro conjI allI impI)
  from assms(2)
  show ne: "path_keys (lang_value s1 @ name s1) \<noteq> path_keys (lang_value s2 @ name s2)"
  proof
    assume "\<not> prefix (lang_value s1) (lang_value s2) \<and> \<not> prefix (lang_value s2) (lang_value s1)"
    then show ?thesis using concat_keys_differ by blast
  next
    assume "CHR ''/'' \<notin> set (lang_value s1) \<and> CHR ''/'' \<notin> set (lang_value s2)
             \<and> (name s1 = name s2 \<or> (prefix ''/'' (name s1) \<and> prefix ''/'' (name s2)))"
    then show ?thesis using unslashed_keys_differ [OF assms(1)] by blast
  qed
  fix t t'
  assume p: "lookup t (sample_slot s1) = Some (Obj s1) \<and> CodeSamplesTree_put t s2 = Inr t'"
  have "sample_slot s1 \<noteq> sample_slot s2" using ne by (simp add: sample_slot_def)
  then show "lookup t' (sample_slot s1) = Some (Obj s1)"
    using kept_after_put_keys [of t "path_keys (lang_value s2 @ name s2)" "http_method s2" s2 t'
        "path_keys (lang_value s1 @ name s1)" "http_method s1" s1] p
    by (simp add: CodeSamplesTree_put_keys sample_slot_def)
  show "lookup t' (sample_slot s2) = Some (Obj s2)"
    using p stored_after_CodeSamplesTree_put by blast
qed

text \<open>
  The language values \<open>java\<close> and \<open>javascript\<close>, one a prefix of the other, with the same
  path \<open>/x\<close> and the same method: the keys differ, both samples are stored and both are
  listed.
\<close>

definition java_x :: CodeSample where
  "java_x = \<lparr>lang_value = ''java'', name = ''/x'', http_method = GET, source = []\<rparr>"

definition java_and_javascript_tree :: "CodeSample pyobj" where
  "java_and_javascript_tree =
     Dict False
      [(SKey ''java'',
        Dict True [(SKey ''x'', Dict True [(SKey ''methods'', Dict False [(MKey GET, Obj java_x)])])]),
       (SKey ''javascript'',
        Dict True [(SKey ''x'', Dict True [(SKey ''methods'', Dict False [(MKey GET, Obj javascript_x)])])])]"

theorem C8_java_javascript_witness:
  "lang_value java_x \<noteq> lang_value javascript_x
   \<and> CHR ''/'' \<notin> set (lang_value java_x) \<and> CHR ''/'' \<notin> set (lang_value javascript_x)
   \<and> name java_x = name javascript_x
   \<and> path_keys (lang_value java_x @ name java_x) \<noteq> path_keys (lang_value javascript_x @ name javascript_x)
   \<and> put_all empty_tree [java_x, javascript_x] = Inr java_and_javascript_tree
   \<and> lookup java_and_javascript_tree (sample_slot java_x) = Some (Obj java_x)
   \<and> lookup java_and_javascript_tree (sample_slot javascript_x) = Some (Obj javascript_x)
   \<and> list_sorted_samples java_and_javascript_tree = Inr [Obj java_x, Obj javascript_x]"
proof -
  have 1: "lang_value java_x \<noteq> lang_value javascript_x" by code_simp
  have 2: "CHR ''/'' \<notin> set (lang_value java_x)" by code_simp
  have 3: "CHR ''/'' \<notin> set (lang_value javascript_x)" by code_simp
  have 4: "name java_x = name javascript_x" by code_simp
  have 5: "put_all empty_tree [java_x, javascript_x] = Inr java_and_javascript_tree" by code_simp
  have 6: "list_sorted_samples java_and_javascript_tree = Inr [Obj java_x, Obj javascript_x]"
    by code_simp
  obtain t1 where p1: "CodeSamplesTree_put empty_tree java_x = Inr t1"
    and p2: "CodeSamplesTree_put t1 javascript_x = Inr java_and_javascript_tree"
    using 5 by (auto split: sum.splits)
  have p: "lookup t1 (sample_slot java_x) = Some (Obj java_x)"
    using p1 by (rule stored_after_CodeSamplesTree_put)
  from 2 3 4 have c: "(\<not> prefix (lang_value java_x) (lang_value javascript_x)
           \<and> \<not> prefix (lang_value javascript_x) (lang_value java_x))
         \<or> (CHR ''/'' \<notin> set (lang_value java_x) \<and> CHR ''/'' \<notin> set (lang_value javascript_x)
             \<and> (name java_x = name javascript_x
                 \<or> (prefix ''/'' (name java_x) \<and> prefix ''/'' (name javascript_x))))" by blast
  note inst = C8_different_languages_kept_apart [OF 1 c]
  from inst have 7: "path_keys (lang_value java_x @ name java_x)
                \<noteq> path_keys (lang_value javascript_x @ name javascript_x)" by blast
  from inst p p2 have 8: "lookup java_and_javascript_tree (sample_slot java_x) = Some (Obj java_x)"
    and 9: "lookup java_and_javascript_tree (sample_slot javascript_x) = Some (Obj javascript_x)"
    by blast+
  from 1 2 3 4 5 6 7 8 9 show ?thesis by simp
qed

text \<open>
  C7. In every state that \<open>put\<close> calls can reach, \<open>get_parent_body\<close> returns a body
  and raises nothing. It returns the empty dictionary when no POST result is recorded at
  any strict ancestor of the sample (at no proper prefix of the keys of its path), so in
  particular for a sample whose path is a single segment, and when the result that
  \<open>get_parent_result\<close> returns has no body.
\<close>

theorem C7_parent_body_defaults_to_empty:
  assumes "record_all empty_tree results = Inr m"
  shows "(\<exists>body. get_parent_body m s = Inr body)
         \<and> ((\<forall>ks. strict_prefix ks (path_keys (name s)) \<longrightarrow> lookup m (slot ks POST) = None)
              \<longrightarrow> get_parent_body m s = Inr [])
         \<and> (CHR ''/'' \<notin> set (name s) \<longrightarrow> get_parent_body m s = Inr [])
         \<and> (\<forall>r. get_parent_result m s = Inr (Some (Obj r)) \<and> json_body r = None
              \<longrightarrow> get_parent_body m s = Inr [])"
proof -
  have inv: "tree_inv result_slot m" using assms by (rule record_all_tree_inv)
  let ?ks = "path_keys (name s)"
  note char = get_parent_result_char [OF inv, of s]
  have total: "\<exists>body. get_parent_body m s = Inr body"
    using char get_parent_body_None [of m s] get_parent_body_Obj [of m s] by metis
  have none: "get_parent_body m s = Inr []"
    if "\<forall>ks. strict_prefix ks ?ks \<longrightarrow> lookup m (slot ks POST) = None"
  proof -
    have "post_at m (take i ?ks) = None" if "i < length ?ks" for i
      using that \<open>\<forall>ks. strict_prefix ks ?ks \<longrightarrow> lookup m (slot ks POST) = None\<close>
        take_strict_prefix [of i ?ks] by (simp add: post_at_def)
    then have "get_parent_result m s = Inr None" using char by fastforce
    then show ?thesis by (rule get_parent_body_None)
  qed
  have top: "get_parent_body m s = Inr []" if "CHR ''/'' \<notin> set (name s)"
  proof (rule none, intro allI impI)
    fix ks
    assume "strict_prefix ks ?ks"
    then have ks: "ks = []" using that by (cases ks) (simp_all add: path_keys_segment)
    show "lookup m (slot ks POST) = None"
    proof (cases "lookup m (slot ks POST)")
      case None
      then show ?thesis .
    next
      case (Some v)
      with tree_inv_slot_Obj [OF inv] obtain r where "v = Obj r" by blast
      then have "slot ks POST = result_slot r"
        using Some inv by (simp add: tree_inv_def at_home_def)
      then have "path_keys (name (sample r)) = []" using ks by (simp add: result_slot_def)
      then show ?thesis using path_keys_not_Nil by blast
    qed
  qed
  have nobody: "get_parent_body m s = Inr []"
    if "get_parent_result m s = Inr (Some (Obj r)) \<and> json_body r = None" for r
    using that get_parent_body_Obj [of m s r] by simp
  from total none top nobody show ?thesis by blast
qed

text \<open>
  A map that holds one POST result, for \<open>a\<close>, without a body: the body is empty for the
  top-level sample of \<open>a\<close> (no ancestor) and for a sample of \<open>a/x\<close> (an ancestor
  without a body).
\<close>

definition result_nobody :: ApiTestResult where
  "result_nobody = \<lparr>sample = \<lparr>lang_value = ''python'', name = ''a'', http_method = POST, source = []\<rparr>,
                    json_body = None, passed = True\<rparr>"

definition nobody_map :: "ApiTestResult pyobj" where
  "nobody_map =
     Dict False [(SKey ''a'', Dict True [(SKey ''methods'', Dict False [(MKey POST, Obj result_nobody)])])]"

theorem C7_no_body_witness:
  "record_all empty_tree [result_nobody] = Inr nobody_map
   \<and> CHR ''/'' \<notin> set (name (sample result_nobody))
   \<and> get_parent_body nobody_map (sample result_nobody) = Inr []
   \<and> get_parent_result nobody_map
        \<lparr>lang_value = ''python'', name = ''a/x'', http_method = GET, source = []\<rparr>
      = Inr (Some (Obj result_nobody))
   \<and> json_body result_nobody = None
   \<and> get_parent_body nobody_map
        \<lparr>lang_value = ''python'', name = ''a/x'', http_method = GET, source = []\<rparr> = Inr []"
proof -
  have h: "record_all empty_tree [result_nobody] = Inr nobody_map" by code_simp
  have t: "CHR ''/'' \<notin> set (name (sample result_nobody))" by code_simp
  have g: "get_parent_result nobody_map
        \<lparr>lang_value = ''python'', name = ''a/x'', http_method = GET, source = []\<rparr>
      = Inr (Some (Obj result_nobody))" by code_simp
  have b: "json_body result_nobody = None" by code_simp
  from C7_parent_body_defaults_to_empty [OF h, of "sample result_nobody"] t
  have 1: "get_parent_body nobody_map (sample result_nobody) = Inr []" by blast
  from C7_parent_body_defaults_to_empty [OF h,
      of "\<lparr>lang_value = ''python'', name = ''a/x'', http_method = GET, source = []\<rparr>"] g b
  have 2: "get_parent_body nobody_map
        \<lparr>lang_value = ''python'', name = ''a/x'', http_method = GET, source = []\<rparr> = Inr []" by blast
  from h t g b 1 2 show ?thesis by simp
qed

text \<open>
  C6 (the claim: two samples with the same key leave exactly one entry for the key, the
  second, in the tree and in the sorted list). The sorted list holds entries of the
  methods POST, GET, PUT and DELETE only: two PATCH samples of one key leave one entry in
  the tree and none in the list.
\<close>

definition patch_first :: CodeSample where
  "patch_first = \<lparr>lang_value = ''python'', name = ''/a'', http_method = OTHER ''PATCH'', source = ''first''\<rparr>"

definition patch_second :: CodeSample where
  "patch_second = \<lparr>lang_value = ''python'', name = ''/a'', http_method = OTHER ''PATCH'', source = ''second''\<rparr>"

theorem C6_patch_twice_counterexample:
  "same_key patch_second (Obj patch_first)
   \<and> sorted_after [patch_first, patch_second] = Inr []
   \<and> \<not> (\<exists>out. sorted_after [patch_first, patch_second] = Inr out
             \<and> filter (same_key patch_second) out = [Obj patch_second])"
proof -
  have k: "same_key patch_second (Obj patch_first)" by code_simp
  have e: "sorted_after [patch_first, patch_second] = Inr []" by code_simp
  from k e show ?thesis by simp
qed

text \<open>
  C6 as amended. After two samples of one key are inserted into a reachable tree, the
  tree is the one that inserting the second alone gives: the second sample is stored,
  and it is the only entry of that key in the tree. If the method is POST, GET, PUT or
  DELETE and no segment of the key is \<open>methods\<close>, the sorted list has exactly one entry
  of that key, the second sample. Recording two results of one path and method leaves
  the map that recording the second alone gives, with the second as the only entry.
\<close>

theorem C6_last_insert_wins:
  assumes "put_all empty_tree samples = Inr t"
    and "lang_value s2 = lang_value s1" "name s2 = name s1" "http_method s2 = http_method s1"
    and "CodeSamplesTree_put t s1 = Inr t1"
  shows "(\<exists>t2. CodeSamplesTree_put t1 s2 = Inr t2
            \<and> CodeSamplesTree_put t s2 = Inr t2
            \<and> lookup t2 (sample_slot s2) = Some (Obj s2)
            \<and> (\<forall>p x. lookup t2 p = Some (Obj x) \<and> same_key s2 (Obj x) \<longrightarrow> x = s2)
            \<and> (http_method s2 \<in> {POST, GET, PUT, DELETE}
                 \<and> ''methods'' \<notin> set (split_slash (lang_value s2 @ name s2))
               \<longrightarrow> (\<exists>out. list_sorted_samples t2 = Inr out
                      \<and> filter (same_key s2) out = [Obj s2])))
         \<and> (\<forall>results m (r1::ApiTestResult) (r2::ApiTestResult) m1.
               record_all empty_tree results = Inr m
               \<and> name (sample r2) = name (sample r1)
               \<and> http_method (sample r2) = http_method (sample r1)
               \<and> TestExecutionResultMap_put m r1 = Inr m1
             \<longrightarrow> (\<exists>m2. TestExecutionResultMap_put m1 r2 = Inr m2
                    \<and> TestExecutionResultMap_put m r2 = Inr m2
                    \<and> lookup m2 (result_slot r2) = Some (Obj r2)
                    \<and> (\<forall>p (x::ApiTestResult). lookup m2 p = Some (Obj x)
                              \<and> name (sample x) = name (sample r2)
                              \<and> http_method (sample x) = http_method (sample r2)
                            \<longrightarrow> x = r2)))"
proof (rule conjI)
  have inv: "tree_inv sample_slot t" using assms(1) by (rule put_all_tree_inv)
  from CodeSamplesTree_put_twice [OF assms(2-5)] obtain t2 where
    t2: "CodeSamplesTree_put t1 s2 = Inr t2" "CodeSamplesTree_put t s2 = Inr t2" by blast
  have inv2: "tree_inv sample_slot t2" using inv t2(2) by (rule tree_inv_CodeSamplesTree_put)
  have stored: "lookup t2 (sample_slot s2) = Some (Obj s2)"
    using t2(2) by (rule stored_after_CodeSamplesTree_put)
  have only: "\<forall>p x. lookup t2 p = Some (Obj x) \<and> same_key s2 (Obj x) \<longrightarrow> x = s2"
    using only_entry_of_key [OF inv2 stored] by blast
  have listed: "\<exists>out. list_sorted_samples t2 = Inr out \<and> filter (same_key s2) out = [Obj s2]"
    if "http_method s2 \<in> {POST, GET, PUT, DELETE}
        \<and> ''methods'' \<notin> set (split_slash (lang_value s2 @ name s2))"
  proof -
    have "''methods'' \<notin> set (path_keys (lang_value s2 @ name s2))"
      using that path_keys_subset_split by blast
    then have "filter (same_key s2) (dfs_order t2) = [Obj s2]"
      using listed_once [OF inv2 stored] that by blast
    then show ?thesis using tree_inv_sorted [OF inv2] by simp
  qed
  show "\<exists>t2. CodeSamplesTree_put t1 s2 = Inr t2
            \<and> CodeSamplesTree_put t s2 = Inr t2
            \<and> lookup t2 (sample_slot s2) = Some (Obj s2)
            \<and> (\<forall>p x. lookup t2 p = Some (Obj x) \<and> same_key s2 (Obj x) \<longrightarrow> x = s2)
            \<and> (http_method s2 \<in> {POST, GET, PUT, DELETE}
                 \<and> ''methods'' \<notin> set (split_slash (lang_value s2 @ name s2))
               \<longrightarrow> (\<exists>out. list_sorted_samples t2 = Inr out
                      \<and> filter (same_key s2) out = [Obj s2]))"
    using t2 stored only listed by blast
next
  show "\<forall>results m (r1::ApiTestResult) (r2::ApiTestResult) m1.
               record_all empty_tree results = Inr m
               \<and> name (sample r2) = name (sample r1)
               \<and> http_method (sample r2) = http_method (sample r1)
               \<and> TestExecutionResultMap_put m r1 = Inr m1
             \<longrightarrow> (\<exists>m2. TestExecutionResultMap_put m1 r2 = Inr m2
                    \<and> TestExecutionResultMap_put m r2 = Inr m2
                    \<and> lookup m2 (result_slot r2) = Some (Obj r2)
                    \<and> (\<forall>p (x::ApiTestResult). lookup m2 p = Some (Obj x)
                              \<and> name (sample x) = name (sample r2)
                              \<and> http_method (sample x) = http_method (sample r2)
                            \<longrightarrow> x = r2))"
  proof (intro allI impI)
    fix results m and r1 r2 :: ApiTestResult and m1
    assume a: "record_all empty_tree results = Inr m
               \<and> name (sample r2) = name (sample r1)
               \<and> http_method (sample r2) = http_method (sample r1)
               \<and> TestExecutionResultMap_put m r1 = Inr m1"
    then have inv: "tree_inv result_slot m" using record_all_tree_inv by blast
    from a TestExecutionResultMap_put_twice [of r2 r1 m m1] obtain m2 where
      m2: "TestExecutionResultMap_put m1 r2 = Inr m2" "TestExecutionResultMap_put m r2 = Inr m2"
      by blast
    have inv2: "tree_inv result_slot m2" using inv m2(2) by (rule tree_inv_TestExecutionResultMap_put)
    have stored: "lookup m2 (result_slot r2) = Some (Obj r2)"
      using m2(2) by (rule stored_after_TestExecutionResultMap_put)
    have only: "x = r2" if "lookup m2 p = Some (Obj x)
        \<and> name (sample x) = name (sample r2) \<and> http_method (sample x) = http_method (sample r2)" for p x
    proof -
      have "p = result_slot x" using that inv2 by (simp add: tree_inv_def at_home_def)
      then have "p = result_slot r2" using that by (simp add: result_slot_def)
      then show ?thesis using that stored by simp
    qed
    show "\<exists>m2. TestExecutionResultMap_put m1 r2 = Inr m2
                    \<and> TestExecutionResultMap_put m r2 = Inr m2
                    \<and> lookup m2 (result_slot r2) = Some (Obj r2)
                    \<and> (\<forall>p (x::ApiTestResult). lookup m2 p = Some (Obj x)
                              \<and> name (sample x) = name (sample r2)
                              \<and> http_method (sample x) = http_method (sample r2)
                            \<longrightarrow> x = r2)"
      using m2 stored only by blast
  qed
qed

text \<open>
  A GET sample of \<open>/a\<close> and then two POST samples of \<open>/a\<close> that differ in their
  source: the tree after both is the tree that the second alone gives, and of the two
  the sorted list holds the second only. Likewise for two results of one path and method.
\<close>

definition get_a :: CodeSample where
  "get_a = \<lparr>lang_value = ''python'', name = ''/a'', http_method = GET, source = []\<rparr>"

definition post_first :: CodeSample where
  "post_first = \<lparr>lang_value = ''python'', name = ''/a'', http_method = POST, source = ''first''\<rparr>"

definition post_second :: CodeSample where
  "post_second = \<lparr>lang_value = ''python'', name = ''/a'', http_method = POST, source = ''second''\<rparr>"

definition tree_of_a :: "CodeSample list \<Rightarrow> CodeSample pyobj" where
  "tree_of_a ss =
     Dict False
      [(SKey ''python'',
        Dict True
         [(SKey ''a'',
           Dict True [(SKey ''methods'', Dict False (map (\<lambda>s. (MKey (http_method s), Obj s)) ss))])])]"

definition result_first :: ApiTestResult where
  "result_first = \<lparr>sample = post_first, json_body = Some [(''id'', ''1'')], passed = False\<rparr>"

definition result_second :: ApiTestResult where
  "result_second = \<lparr>sample = post_second, json_body = Some [(''id'', ''2'')], passed = True\<rparr>"

definition map_of_a :: "ApiTestResult \<Rightarrow> ApiTestResult pyobj" where
  "map_of_a r =
     Dict False
      [(SKey [],
        Dict True
         [(SKey ''a'',
           Dict True [(SKey ''methods'', Dict False [(MKey POST, Obj r)])])])]"

theorem C6_post_twice_witness:
  "put_all empty_tree [get_a] = Inr (tree_of_a [get_a])
   \<and> CodeSamplesTree_put (tree_of_a [get_a]) post_first = Inr (tree_of_a [get_a, post_first])
   \<and> CodeSamplesTree_put (tree_of_a [get_a, post_first]) post_second = Inr (tree_of_a [get_a, post_second])
   \<and> CodeSamplesTree_put (tree_of_a [get_a]) post_second = Inr (tree_of_a [get_a, post_second])
   \<and> lookup (tree_of_a [get_a, post_second]) (sample_slot post_second) = Some (Obj post_second)
   \<and> list_sorted_samples (tree_of_a [get_a, post_second]) = Inr [Obj post_second, Obj get_a]
   \<and> filter (same_key post_second) [Obj post_second, Obj get_a] = [Obj post_second]
   \<and> TestExecutionResultMap_put empty_tree result_first = Inr (map_of_a result_first)
   \<and> TestExecutionResultMap_put (map_of_a result_first) result_second = Inr (map_of_a result_second)
   \<and> lookup (map_of_a result_second) (result_slot result_second) = Some (Obj result_second)"
proof -
  have h: "put_all empty_tree [get_a] = Inr (tree_of_a [get_a])" by code_simp
  have l: "lang_value post_second = lang_value post_first" by code_simp
  have n: "name post_second = name post_first" by code_simp
  have m: "http_method post_second = http_method post_first" by code_simp
  have p1: "CodeSamplesTree_put (tree_of_a [get_a]) post_first = Inr (tree_of_a [get_a, post_first])"
    by code_simp
  have p2: "CodeSamplesTree_put (tree_of_a [get_a, post_first]) post_second
            = Inr (tree_of_a [get_a, post_second])" by code_simp
  have p3: "CodeSamplesTree_put (tree_of_a [get_a]) post_second = Inr (tree_of_a [get_a, post_second])"
    by code_simp
  have s: "list_sorted_samples (tree_of_a [get_a, post_second]) = Inr [Obj post_second, Obj get_a]"
    by code_simp
  have f: "filter (same_key post_second) [Obj post_second, Obj get_a] = [Obj post_second]"
    by code_simp
  have r0: "record_all empty_tree [] = Inr (empty_tree :: ApiTestResult pyobj)" by simp
  have rn: "name (sample result_second) = name (sample result_first)" by code_simp
  have rm: "http_method (sample result_second) = http_method (sample result_first)" by code_simp
  have r1: "TestExecutionResultMap_put empty_tree result_first = Inr (map_of_a result_first)"
    by code_simp
  have r2: "TestExecutionResultMap_put (map_of_a result_first) result_second
            = Inr (map_of_a result_second)" by code_simp
  note inst = C6_last_insert_wins [OF h l n m p1]
  from inst obtain t2 where t2: "CodeSamplesTree_put (tree_of_a [get_a, post_first]) post_second = Inr t2"
    "lookup t2 (sample_slot post_second) = Some (Obj post_second)" by blast
  from t2(1) p2 have "t2 = tree_of_a [get_a, post_second]" by simp
  with t2(2) have a: "lookup (tree_of_a [get_a, post_second]) (sample_slot post_second)
                      = Some (Obj post_second)" by simp
  from inst r0 rn rm r1 obtain m2 where m2:
    "TestExecutionResultMap_put (map_of_a result_first) result_second = Inr m2"
    "lookup m2 (result_slot result_second) = Some (Obj result_second)" by blast
  from m2(1) r2 have "m2 = map_of_a result_second" by simp
  with m2(2) have b: "lookup (map_of_a result_second) (result_slot result_second)
                      = Some (Obj result_second)" by simp
  from h p1 p2 p3 a s f r1 r2 b show ?thesis by simp
qed

end
